theory Spec2Isabelle
  imports Main "HOL-Library.Word"
begin

text \<open>
  A model of \<open>excel-to-json.js\<close>: the header normalizer \<open>toCamelCase\<close>, the row
  processor \<open>processSheetData\<close> and the sheet selection of \<open>convertExcelToJson\<close>,
  with the parts of the language they rest on (string methods, property assignment and
  enumeration, \<open>Date.prototype.toISOString\<close>). Reading the file and parsing the
  workbook belong to libraries; their results are inputs of the model. The definitions
  come first, then the properties of the normalizer, of the rows, of the workbook and
  of the cells.
\<close>

section \<open>Strings\<close>

text \<open>
  A header is a string of the language: a list of 16-bit code units. The methods used
  on headers (\<open>trim\<close>, \<open>replace\<close>, \<open>split\<close>, \<open>charAt\<close>, \<open>slice\<close>) and the
  regular expressions, which have no \<open>u\<close> flag, work on code units. \<open>ascii\<close> gives
  the code units of a text of ASCII characters; literals are written with it.
\<close>

type_synonym codeUnit = "16 word"

type_synonym jsString = "codeUnit list"

definition ascii :: "string \<Rightarrow> jsString" where
  "ascii s = map of_char s"

text \<open>
  White space: the class \<open>\s\<close> of regular expressions, which is also what
  \<open>String.prototype.trim\<close> removes. It is made of the standard's \<open>WhiteSpace\<close>
  (tab, vertical tab, form feed, space, no-break space, the byte order mark and the
  other space separators of Unicode) and \<open>LineTerminator\<close> (line feed, carriage
  return, line separator, paragraph separator).
\<close>

definition isSpace :: "codeUnit \<Rightarrow> bool" where
  "isSpace c =
     (c = 0x0009 \<or> c = 0x000A \<or> c = 0x000B \<or> c = 0x000C \<or> c = 0x000D \<or> c = 0x0020
      \<or> c = 0x00A0 \<or> c = 0x1680 \<or> (0x2000 \<le> c \<and> c \<le> 0x200A) \<or> c = 0x2028
      \<or> c = 0x2029 \<or> c = 0x202F \<or> c = 0x205F \<or> c = 0x3000 \<or> c = 0xFEFF)"

text \<open>
  The character class \<open>[\s\-_\.]\<close> of the split in \<open>toCamelCase\<close>: white space,
  hyphen, underscore, period.
\<close>

definition isSeparator :: "codeUnit \<Rightarrow> bool" where
  "isSeparator c = (isSpace c \<or> c = 0x002D \<or> c = 0x005F \<or> c = 0x002E)"

text \<open>\<open>str.trim()\<close>: leading and trailing white space removed.\<close>

definition trim :: "jsString \<Rightarrow> jsString" where
  "trim s = rev (dropWhile isSpace (rev (dropWhile isSpace s)))"

text \<open>
  \<open>str.replace(/\s+/g, " ")\<close>: every maximal run of white space is replaced by one
  space (U+0020).
\<close>

function replaceSpaces :: "jsString \<Rightarrow> jsString" where
  "replaceSpaces [] = []"
| "replaceSpaces (c # cs) =
     (if isSpace c then 0x0020 # replaceSpaces (dropWhile isSpace cs)
      else c # replaceSpaces cs)"
  by pat_completeness auto
termination
  by (relation "measure length") (auto simp: length_dropWhile_le less_Suc_eq_le)

text \<open>
  \<open>str.split(re)\<close> for a regular expression \<open>[...]+\<close> over a character class
  \<open>sep\<close>: the pieces between the maximal runs of class characters. A run at the
  start or at the end of the string leaves an empty piece there, and the empty string
  splits into one empty piece.
\<close>

function splitRuns :: "(codeUnit \<Rightarrow> bool) \<Rightarrow> jsString \<Rightarrow> jsString list" where
  "splitRuns sep s =
     (case dropWhile (\<lambda>c. \<not> sep c) s of
        [] \<Rightarrow> [s]
      | c # r \<Rightarrow> takeWhile (\<lambda>c. \<not> sep c) s # splitRuns sep (dropWhile sep r))"
  by pat_completeness auto
termination
proof (relation "measure (\<lambda>(sep, s). length s)", goal_cases)
  case 1
  show ?case by simp
next
  case (2 sep s c r)
  have "length (dropWhile sep r) \<le> length r"
    by (rule length_dropWhile_le)
  moreover have "length (c # r) \<le> length s"
    using 2 length_dropWhile_le [of "\<lambda>c. \<not> sep c" s] by simp
  ultimately show ?case by simp
qed

text \<open>
  \<open>toLowerCase\<close> and \<open>toUpperCase\<close> follow the case tables of Unicode, which are
  no part of the program: the two methods are parameters of the model, functions from
  strings to strings (a mapping may change the length of a string, and may depend on
  the characters around). What is proved holds for every pair of such functions.
\<close>

record caseMaps =
  toLowerCase :: "jsString \<Rightarrow> jsString"
  toUpperCase :: "jsString \<Rightarrow> jsString"

text \<open>
  The callback of \<open>.map((word, index) => ...)\<close> in \<open>toCamelCase\<close>:
  \<open>charAt(0)\<close> is \<open>take 1\<close> and \<open>slice(1)\<close> is \<open>drop 1\<close>.
\<close>

definition camelWord :: "caseMaps \<Rightarrow> nat \<Rightarrow> jsString \<Rightarrow> jsString" where
  "camelWord cm index word =
     (if index = 0 then toLowerCase cm word
      else toUpperCase cm (take 1 word) @ toLowerCase cm (drop 1 word))"

definition toCamelCase :: "caseMaps \<Rightarrow> jsString \<Rightarrow> jsString" where
  "toCamelCase cm str =
     (let words = filter (\<lambda>word. length word > 0)
                    (splitRuns isSeparator (replaceSpaces (trim str)))
      in concat (map (\<lambda>(index, word). camelWord cm index word)
                   (zip [0..<length words] words)))"

text \<open>
  On a string of ASCII characters the two methods change the letters \<open>A\<close> to \<open>Z\<close>
  and \<open>a\<close> to \<open>z\<close> and nothing else. \<open>asciiCase\<close> says so of a pair of case
  mappings; \<open>asciiMaps\<close> is the pair that does this on every string. It stands for
  the mappings in the examples, whose headers have ASCII letters only.
\<close>

definition isAscii :: "codeUnit \<Rightarrow> bool" where
  "isAscii c = (c < 0x0080)"

definition asciiLower :: "codeUnit \<Rightarrow> codeUnit" where
  "asciiLower c = (if 0x0041 \<le> c \<and> c \<le> 0x005A then c + 0x0020 else c)"

definition asciiUpper :: "codeUnit \<Rightarrow> codeUnit" where
  "asciiUpper c = (if 0x0061 \<le> c \<and> c \<le> 0x007A then c - 0x0020 else c)"

definition asciiMaps :: caseMaps where
  "asciiMaps = \<lparr>toLowerCase = map asciiLower, toUpperCase = map asciiUpper\<rparr>"

definition asciiCase :: "caseMaps \<Rightarrow> bool" where
  "asciiCase cm =
     (\<forall>s. list_all isAscii s \<longrightarrow>
            toLowerCase cm s = map asciiLower s \<and> toUpperCase cm s = map asciiUpper s)"


section \<open>Cell values and dates\<close>

text \<open>
  A raw cell is \<open>null\<close>, \<open>undefined\<close> (absent), a string, a number, a boolean or a
  \<open>Date\<close>. A \<open>Date\<close> carries its time value: the milliseconds since the epoch, or
  \<open>NaN\<close> for an invalid date (\<open>None\<close>). The code only stores and passes numbers on,
  so integers stand for them. Output cells use the same type.
\<close>

datatype cell = Null | Undefined | Str string | Num int | Bool bool | DateV "int option"

datatype exception = RangeError string | Error string

fun message :: "exception \<Rightarrow> string" where
  "message (RangeError m) = m"
| "message (Error m) = m"

text \<open>
  Decimal digits: the last \<open>w\<close> digits of a number that is not negative, and a
  natural number without padding.
\<close>

definition digitChar :: "int \<Rightarrow> char" where
  "digitChar n = char_of (48 + n mod 10)"

definition isDigit :: "char \<Rightarrow> bool" where
  "isDigit c = (let n = (of_char c :: int) in 48 \<le> n \<and> n \<le> 57)"

fun padDigits :: "nat \<Rightarrow> int \<Rightarrow> string" where
  "padDigits 0 n = []"
| "padDigits (Suc w) n = padDigits w (n div 10) @ [digitChar n]"

fun showNat :: "nat \<Rightarrow> string" where
  "showNat n =
     (if n < 10 then [digitChar (int n)] else showNat (n div 10) @ [digitChar (int n)])"

text \<open>
  The date arithmetic of the language standard (ECMA-262, Time Values and Time Range),
  over the integers: \<open>div\<close> and \<open>mod\<close> on \<open>int\<close> are floor division and its
  remainder. \<open>YearFromTime\<close> is specified as the largest year whose start is not after
  the time value; here it is computed from an estimate that is off by at most one.
\<close>

definition msPerDay :: int where
  "msPerDay = 86400000"

definition Day :: "int \<Rightarrow> int" where
  "Day t = t div msPerDay"

definition DaysInYear :: "int \<Rightarrow> int" where
  "DaysInYear y =
     (if y mod 4 \<noteq> 0 then 365 else if y mod 100 \<noteq> 0 then 366
      else if y mod 400 \<noteq> 0 then 365 else 366)"

definition DayFromYear :: "int \<Rightarrow> int" where
  "DayFromYear y =
     365 * (y - 1970) + (y - 1969) div 4 - (y - 1901) div 100 + (y - 1601) div 400"

definition TimeFromYear :: "int \<Rightarrow> int" where
  "TimeFromYear y = msPerDay * DayFromYear y"

definition YearFromTime :: "int \<Rightarrow> int" where
  "YearFromTime t =
     (let d = Day t; y = 1970 + (d * 400) div 146097
      in if d < DayFromYear y then y - 1
         else if DayFromYear (y + 1) \<le> d then y + 1 else y)"

definition DayWithinYear :: "int \<Rightarrow> int" where
  "DayWithinYear t = Day t - DayFromYear (YearFromTime t)"

definition InLeapYear :: "int \<Rightarrow> int" where
  "InLeapYear t = (if DaysInYear (YearFromTime t) = 366 then 1 else 0)"

definition MonthFromTime :: "int \<Rightarrow> int" where
  "MonthFromTime t =
     (let d = DayWithinYear t; l = InLeapYear t
      in if d < 31 then 0 else if d < 59 + l then 1 else if d < 90 + l then 2
         else if d < 120 + l then 3 else if d < 151 + l then 4 else if d < 181 + l then 5
         else if d < 212 + l then 6 else if d < 243 + l then 7 else if d < 273 + l then 8
         else if d < 304 + l then 9 else if d < 334 + l then 10 else 11)"

definition DateFromTime :: "int \<Rightarrow> int" where
  "DateFromTime t =
     (let d = DayWithinYear t; l = InLeapYear t; m = MonthFromTime t
      in if m = 0 then d + 1 else if m = 1 then d - 30 else if m = 2 then d - 58 - l
         else if m = 3 then d - 89 - l else if m = 4 then d - 119 - l
         else if m = 5 then d - 150 - l else if m = 6 then d - 180 - l
         else if m = 7 then d - 211 - l else if m = 8 then d - 242 - l
         else if m = 9 then d - 272 - l else if m = 10 then d - 303 - l
         else d - 333 - l)"

definition HourFromTime :: "int \<Rightarrow> int" where
  "HourFromTime t = (t div 3600000) mod 24"

definition MinFromTime :: "int \<Rightarrow> int" where
  "MinFromTime t = (t div 60000) mod 60"

definition SecFromTime :: "int \<Rightarrow> int" where
  "SecFromTime t = (t div 1000) mod 60"

definition msFromTime :: "int \<Rightarrow> int" where
  "msFromTime t = t mod 1000"

text \<open>
  The year of the date-time string format: four digits for the years 0 to 9999, a sign
  and six digits otherwise.
\<close>

definition isoYear :: "int \<Rightarrow> string" where
  "isoYear y =
     (if 0 \<le> y \<and> y \<le> 9999 then padDigits 4 y
      else (if y < 0 then CHR ''-'' else CHR ''+'') # padDigits 6 \<bar>y\<bar>)"

definition isoDate :: "int \<Rightarrow> string" where
  "isoDate t =
     isoYear (YearFromTime t) @ ''-'' @ padDigits 2 (MonthFromTime t + 1) @ ''-''
       @ padDigits 2 (DateFromTime t)"

definition isoTime :: "int \<Rightarrow> string" where
  "isoTime t =
     padDigits 2 (HourFromTime t) @ '':'' @ padDigits 2 (MinFromTime t) @ '':''
       @ padDigits 2 (SecFromTime t) @ ''.'' @ padDigits 3 (msFromTime t)"

text \<open>
  \<open>Date.prototype.toISOString\<close>: \<open>YYYY-MM-DDTHH:mm:ss.sssZ\<close> in UTC; it throws a
  \<open>RangeError\<close> when the time value is \<open>NaN\<close>.
\<close>

definition toISOString :: "int option \<Rightarrow> exception + string" where
  "toISOString tv =
     (case tv of
        None \<Rightarrow> Inl (RangeError ''Invalid time value'')
      | Some t \<Rightarrow> Inr (isoDate t @ ''T'' @ isoTime t @ ''Z''))"

text \<open>
  \<open>s.split("T")[0]\<close>: the part of \<open>s\<close> before its first \<open>T\<close>, all of \<open>s\<close> when it
  has none.
\<close>

definition splitTFirst :: "string \<Rightarrow> string" where
  "splitTFirst s = takeWhile (\<lambda>c. c \<noteq> CHR ''T'') s"

text \<open>
  The conversion of one cell value in the loop of \<open>processSheetData\<close> (the statements
  from \<open>let value = row[key]\<close> to the assignment).
\<close>

definition convertValue :: "cell \<Rightarrow> exception + cell" where
  "convertValue v =
     (case v of
        DateV tv \<Rightarrow>
          (case toISOString tv of Inl e \<Rightarrow> Inl e | Inr s \<Rightarrow> Inr (Str (splitTFirst s)))
      | _ \<Rightarrow> if v = Null \<or> v = Undefined \<or> v = Str [] then Inr Null else Inr v)"


section \<open>Objects\<close>

text \<open>
  A plain object is the list of its own properties in the order of their creation.
  \<open>setProp\<close> writes an own property: an existing key keeps its place and gets the
  new value, a new key is appended. An input row is the list of its entries in the
  order in which \<open>for (key in row)\<close> and \<open>Object.values(row)\<close> visit them,
  \<open>row[key]\<close> being the value paired with \<open>key\<close>. The keys of a row are headers;
  the cells and the sheet names are texts that the code only compares and copies.
\<close>

type_synonym ('k, 'v) object = "('k \<times> 'v) list"

type_synonym row = "(jsString, cell) object"

definition setProp :: "('k, 'v) object \<Rightarrow> 'k \<Rightarrow> 'v \<Rightarrow> ('k, 'v) object" where
  "setProp obj k v =
     (if k \<in> set (map fst obj)
      then map (\<lambda>(k', v'). if k' = k then (k', v) else (k', v')) obj
      else obj @ [(k, v)])"

definition getProp :: "('k, 'v) object \<Rightarrow> 'k \<Rightarrow> 'v option" where
  "getProp obj k = map_of obj k"

text \<open>
  The assignment \<open>cleanRow[cleanKey] = value\<close>. An object made by \<open>{}\<close> inherits
  from \<open>Object.prototype\<close> the accessor \<open>__proto__\<close>: an assignment to that key,
  when the object has no own property of that name, calls the setter and writes no
  property. The setter makes \<open>null\<close> the prototype of the object when the value is
  \<open>null\<close>, after which the object inherits nothing, and does nothing for a string, a
  number, a boolean or \<open>undefined\<close> (a value that is an object would become the
  prototype, through which the accessor is still inherited). Every other assignment
  writes an own property. The object being built is its own properties and whether it
  still inherits the accessor.
\<close>

record rowObject =
  props :: "(jsString, cell) object"
  inheritsAccessor :: bool

definition emptyObject :: rowObject where
  "emptyObject = \<lparr>props = [], inheritsAccessor = True\<rparr>"

definition assignCell :: "rowObject \<Rightarrow> jsString \<Rightarrow> cell \<Rightarrow> rowObject" where
  "assignCell obj k v =
     (if k = ascii ''__proto__'' \<and> inheritsAccessor obj \<and> k \<notin> set (map fst (props obj))
      then (if v = Null then obj\<lparr>inheritsAccessor := False\<rparr> else obj)
      else obj\<lparr>props := setProp (props obj) k v\<rparr>)"

text \<open>
  The assignment \<open>result[sheetName] = ...\<close>, whose value is an array. For the sheet
  name \<open>__proto__\<close> the setter makes the array the prototype of \<open>result\<close>, which
  goes on inheriting the accessor through it, and \<open>result\<close> gets no property.
\<close>

definition assignSheet :: "(string, 'v) object \<Rightarrow> string \<Rightarrow> 'v \<Rightarrow> (string, 'v) object" where
  "assignSheet result sheetName rows =
     (if sheetName = ''__proto__'' then result else setProp result sheetName rows)"

text \<open>
  The order in which the keys of an object are enumerated (\<open>Object.keys\<close>,
  \<open>JSON.stringify\<close>): first the array indices, that is the canonical decimal numerals
  below \<open>2^32 - 1\<close>, in ascending numeric order, then every other key in creation
  order.
\<close>

definition isDecimalDigit :: "codeUnit \<Rightarrow> bool" where
  "isDecimalDigit c = (0x0030 \<le> c \<and> c \<le> 0x0039)"

definition decValue :: "jsString \<Rightarrow> int" where
  "decValue s = foldl (\<lambda>n c. 10 * n + (uint c - 48)) 0 s"

definition isArrayIndex :: "jsString \<Rightarrow> bool" where
  "isArrayIndex s =
     (s \<noteq> [] \<and> list_all isDecimalDigit s \<and> (hd s \<noteq> 0x0030 \<or> s = [0x0030])
      \<and> decValue s < 4294967295)"

definition ownKeys :: "(jsString, 'v) object \<Rightarrow> jsString list" where
  "ownKeys obj =
     (let ks = map fst obj
      in sort_key decValue (filter isArrayIndex ks) @ filter (\<lambda>k. \<not> isArrayIndex k) ks)"


section \<open>processSheetData\<close>

text \<open>The predicate of the row filter: \<open>Object.values(row).some(...)\<close>.\<close>

definition hasValue :: "row \<Rightarrow> bool" where
  "hasValue r =
     list_ex (\<lambda>cell. cell \<noteq> Null \<and> cell \<noteq> Undefined \<and> cell \<noteq> Str []) (map snd r)"

text \<open>The column name of a raw key, by the \<open>camelCase\<close> flag.\<close>

definition cleanKeyOf :: "caseMaps \<Rightarrow> bool \<Rightarrow> jsString \<Rightarrow> jsString" where
  "cleanKeyOf cm camelCase key =
     (if camelCase then toCamelCase cm key else replaceSpaces (trim key))"

text \<open>
  The loop \<open>for (let key in row)\<close>, over the entries still to visit, with the object
  \<open>cleanRow\<close> built so far. An exception thrown by the conversion of a value leaves
  the loop.
\<close>

fun rowLoop :: "caseMaps \<Rightarrow> bool \<Rightarrow> row \<Rightarrow> rowObject \<Rightarrow> exception + rowObject" where
  "rowLoop cm camelCase [] cleanRow = Inr cleanRow"
| "rowLoop cm camelCase ((key, v) # rest) cleanRow =
     (let cleanKey = cleanKeyOf cm camelCase key
      in if cleanKey = [] then rowLoop cm camelCase rest cleanRow
         else (case convertValue v of
                 Inl e \<Rightarrow> Inl e
               | Inr v' \<Rightarrow> rowLoop cm camelCase rest (assignCell cleanRow cleanKey v')))"

text \<open>
  The callback of \<open>filteredData.map((row, index) => ...)\<close>; the row it returns is
  read through its own properties.
\<close>

definition processRow ::
  "caseMaps \<Rightarrow> bool \<Rightarrow> bool \<Rightarrow> row \<Rightarrow> nat \<Rightarrow> exception + (jsString, cell) object" where
  "processRow cm addId camelCase r index =
     (case rowLoop cm camelCase r
             (if addId then assignCell emptyObject (ascii ''id'') (Num (int index))
              else emptyObject) of
        Inl e \<Rightarrow> Inl e
      | Inr cleanRow \<Rightarrow> Inr (props cleanRow))"

text \<open>\<open>Array.prototype.map\<close> with a callback that may throw: the first exception ends it.\<close>

fun mapRows :: "('a \<Rightarrow> nat \<Rightarrow> exception + 'b) \<Rightarrow> 'a list \<Rightarrow> nat \<Rightarrow> exception + 'b list" where
  "mapRows f [] index = Inr []"
| "mapRows f (x # xs) index =
     (case f x index of
        Inl e \<Rightarrow> Inl e
      | Inr y \<Rightarrow> (case mapRows f xs (Suc index) of Inl e \<Rightarrow> Inl e | Inr ys \<Rightarrow> Inr (y # ys)))"

text \<open>
  \<open>processSheetData(data, addId, camelCase)\<close>; \<open>None\<close> is a \<open>data\<close> that is
  \<open>null\<close> or \<open>undefined\<close>.
\<close>

definition processSheetData ::
  "caseMaps \<Rightarrow> row list option \<Rightarrow> bool \<Rightarrow> bool \<Rightarrow> exception + (jsString, cell) object list" where
  "processSheetData cm data addId camelCase =
     (case data of
        None \<Rightarrow> Inr []
      | Some rows \<Rightarrow>
          if length rows = 0 then Inr []
          else (let filteredData = filter hasValue rows
                in mapRows (processRow cm addId camelCase) filteredData 0))"


section \<open>convertExcelToJson\<close>

text \<open>
  The workbook as the spreadsheet library hands it over: the sheet names, and for each
  name the rows that \<open>XLSX.utils.sheet_to_json\<close> returns for that sheet (with the
  header option of the caller and \<open>defval: null\<close>). A file is missing, or reading it
  throws, or it gives a workbook.
\<close>

record workbook =
  SheetNames :: "string list"
  sheetRows :: "string \<Rightarrow> row list"

datatype fileState = Missing | Unreadable exception | Readable workbook

text \<open>The options read by \<open>convertExcelToJson\<close>; \<open>None\<close> is an absent \<open>sheet\<close>.\<close>

record options =
  sheet :: "string option"
  allSheets :: bool
  listSheets :: bool
  noId :: bool
  noCamelCase :: bool

text \<open>
  The object returned: \<open>{success: false, error}\<close>, or the sheet list with its message,
  or \<open>{success: true, data, sheets, message}\<close>, where \<open>data\<close> is one array of rows
  or an object from sheet names to arrays of rows.
\<close>

datatype sheetData =
    OneSheet "(jsString, cell) object list"
  | SheetMap "(string, (jsString, cell) object list) object"

datatype conversion =
    Failure string
  | SheetList "string list" string
  | Converted sheetData "string list" string

text \<open>\<open>sheetNames.join(", ")\<close>\<close>

fun joinWith :: "'a list \<Rightarrow> 'a list list \<Rightarrow> 'a list" where
  "joinWith sep [] = []"
| "joinWith sep [x] = x"
| "joinWith sep (x # y # ys) = x @ sep @ joinWith sep (y # ys)"

text \<open>The loop \<open>sheetNames.forEach\<close> of the all-sheets branch.\<close>

fun convertAllSheets ::
  "caseMaps \<Rightarrow> workbook \<Rightarrow> bool \<Rightarrow> bool \<Rightarrow> string list
     \<Rightarrow> (string, (jsString, cell) object list) object
     \<Rightarrow> exception + (string, (jsString, cell) object list) object" where
  "convertAllSheets cm wb addId camelCase [] result = Inr result"
| "convertAllSheets cm wb addId camelCase (sheetName # rest) result =
     (case processSheetData cm (Some (sheetRows wb sheetName)) addId camelCase of
        Inl e \<Rightarrow> Inl e
      | Inr rows \<Rightarrow>
          convertAllSheets cm wb addId camelCase rest (assignSheet result sheetName rows))"

text \<open>
  \<open>options.sheet || sheetNames[0]\<close>: an absent or empty \<open>sheet\<close> is falsy, and the
  first element of an empty array is \<open>undefined\<close> (\<open>None\<close>).
\<close>

definition targetSheetOf :: "options \<Rightarrow> string list \<Rightarrow> string option" where
  "targetSheetOf opts sheetNames =
     (case sheet opts of
        Some s \<Rightarrow> if s \<noteq> [] then Some s else (case sheetNames of [] \<Rightarrow> None | n # _ \<Rightarrow> Some n)
      | None \<Rightarrow> (case sheetNames of [] \<Rightarrow> None | n # _ \<Rightarrow> Some n))"

text \<open>The text of a value inside a template literal.\<close>

definition templateText :: "string option \<Rightarrow> string" where
  "templateText v = (case v of None \<Rightarrow> ''undefined'' | Some s \<Rightarrow> s)"

definition sheetNotFound :: "string option \<Rightarrow> string list \<Rightarrow> string" where
  "sheetNotFound targetSheet sheetNames =
     ''Sheet \"'' @ templateText targetSheet @ ''\" not found. Available sheets: ''
       @ joinWith '', '' sheetNames"

text \<open>The body of the \<open>try\<close> block.\<close>

definition convertBody ::
  "caseMaps \<Rightarrow> (string \<Rightarrow> fileState) \<Rightarrow> string \<Rightarrow> options \<Rightarrow> exception + conversion" where
  "convertBody cm fs filePath opts =
     (case fs filePath of
        Missing \<Rightarrow> Inl (Error (''File not found: '' @ filePath))
      | Unreadable e \<Rightarrow> Inl e
      | Readable wb \<Rightarrow>
          (let sheetNames = SheetNames wb
           in if listSheets opts
              then Inr (SheetList sheetNames
                     (''Found '' @ showNat (length sheetNames) @ '' sheet(s)''))
              else (let addId = \<not> noId opts; camelCase = \<not> noCamelCase opts
                    in if allSheets opts
                       then (case convertAllSheets cm wb addId camelCase sheetNames [] of
                               Inl e \<Rightarrow> Inl e
                             | Inr result \<Rightarrow>
                                 Inr (Converted (SheetMap result) sheetNames
                                        ''Conversion successful''))
                       else (let targetSheet = targetSheetOf opts sheetNames
                             in case targetSheet of
                                  None \<Rightarrow> Inl (Error (sheetNotFound targetSheet sheetNames))
                                | Some t \<Rightarrow>
                                    if t \<notin> set sheetNames
                                    then Inl (Error (sheetNotFound targetSheet sheetNames))
                                    else (case processSheetData cm (Some (sheetRows wb t))
                                                 addId camelCase of
                                            Inl e \<Rightarrow> Inl e
                                          | Inr result \<Rightarrow>
                                              Inr (Converted (OneSheet result) sheetNames
                                                     ''Conversion successful''))))))"

text \<open>\<open>convertExcelToJson\<close>: the \<open>catch\<close> turns every exception into a failure.\<close>

definition convertExcelToJson ::
  "caseMaps \<Rightarrow> (string \<Rightarrow> fileState) \<Rightarrow> string \<Rightarrow> options \<Rightarrow> conversion" where
  "convertExcelToJson cm fs filePath opts =
     (case convertBody cm fs filePath opts of
        Inl e \<Rightarrow> Failure (message e)
      | Inr r \<Rightarrow> r)"


section \<open>The normalizer as the specification words it\<close>

text \<open>
  The specification describes the header normalizer by its tokens: the header is split
  at each separator character and the empty tokens are dropped; in camel-case mode the
  first token is lower-cased, every later token has its first character upper-cased and
  the rest lower-cased, and the tokens are concatenated. These definitions follow those
  words, to be compared with \<open>toCamelCase\<close> and \<open>cleanKeyOf\<close> above. A character
  is an element of the string, a code unit, as it is for \<open>charAt\<close> and \<open>length\<close>.
\<close>

fun splitEach :: "(codeUnit \<Rightarrow> bool) \<Rightarrow> jsString \<Rightarrow> jsString list" where
  "splitEach sep [] = [[]]"
| "splitEach sep (c # cs) =
     (if sep c then [] # splitEach sep cs
      else (c # hd (splitEach sep cs)) # tl (splitEach sep cs))"

definition specTokens :: "(codeUnit \<Rightarrow> bool) \<Rightarrow> jsString \<Rightarrow> jsString list" where
  "specTokens sep s = filter (\<lambda>w. w \<noteq> []) (splitEach sep s)"

fun capitalize :: "caseMaps \<Rightarrow> jsString \<Rightarrow> jsString" where
  "capitalize cm [] = []"
| "capitalize cm (c # cs) = toUpperCase cm [c] @ toLowerCase cm cs"

definition specCamel :: "caseMaps \<Rightarrow> jsString \<Rightarrow> jsString" where
  "specCamel cm s =
     (case specTokens isSeparator s of
        [] \<Rightarrow> []
      | t # ts \<Rightarrow> toLowerCase cm t @ concat (map (capitalize cm) ts))"

text \<open>
  In pass-through mode the result is the header's white-space-separated words joined by
  single spaces.
\<close>

definition specCollapse :: "jsString \<Rightarrow> jsString" where
  "specCollapse s = joinWith [0x0020] (specTokens isSpace s)"


section \<open>Tokens of a header\<close>

lemma splitEach_nonempty: "splitEach sep s \<noteq> []"
  by (cases s) auto

lemma specTokens_sep_Cons: "sep c \<Longrightarrow> specTokens sep (c # cs) = specTokens sep cs"
  by (simp add: specTokens_def)

lemma specTokens_hd_tl:
  "specTokens sep s =
     (if hd (splitEach sep s) = [] then [] else [hd (splitEach sep s)])
       @ filter (\<lambda>w. w \<noteq> []) (tl (splitEach sep s))"
  using splitEach_nonempty [of sep s]
  by (cases "splitEach sep s") (auto simp: specTokens_def)

lemma specTokens_dropWhile:
  assumes "\<And>c. p c \<Longrightarrow> sep c"
  shows "specTokens sep (dropWhile p s) = specTokens sep s"
  using assms by (induction s) (auto simp: specTokens_sep_Cons)

lemma splitEach_append_sep:
  "sep c \<Longrightarrow> splitEach sep (a @ c # b) = splitEach sep a @ splitEach sep b"
  by (induction a) (auto simp: splitEach_nonempty)

lemma specTokens_append_sep:
  "sep c \<Longrightarrow> specTokens sep (a @ c # b) = specTokens sep a @ specTokens sep b"
  by (simp add: specTokens_def splitEach_append_sep)

lemma specTokens_all_sep: "\<forall>c\<in>set b. sep c \<Longrightarrow> specTokens sep b = []"
  by (induction b) (auto simp: specTokens_def)

lemma specTokens_append_all_sep:
  "\<forall>c\<in>set b. sep c \<Longrightarrow> specTokens sep (a @ b) = specTokens sep a"
  by (cases b) (auto simp: specTokens_append_sep specTokens_all_sep)

lemma specTokens_rev_dropWhile:
  assumes "\<And>c. p c \<Longrightarrow> sep c"
  shows "specTokens sep (rev (dropWhile p (rev s))) = specTokens sep s"
proof -
  have "rev s = takeWhile p (rev s) @ dropWhile p (rev s)"
    by simp
  then have "s = rev (dropWhile p (rev s)) @ rev (takeWhile p (rev s))"
    by (metis rev_append rev_rev_ident)
  moreover have "\<forall>c\<in>set (rev (takeWhile p (rev s))). sep c"
    using assms by (auto dest: set_takeWhileD)
  ultimately show ?thesis
    using specTokens_append_all_sep by metis
qed

lemma specTokens_trim:
  assumes "\<And>c. isSpace c \<Longrightarrow> sep c"
  shows "specTokens sep (trim s) = specTokens sep s"
  using assms by (simp add: trim_def specTokens_rev_dropWhile specTokens_dropWhile)

lemma splitEach_replaceSpaces:
  assumes "\<And>c. isSpace c \<Longrightarrow> sep c"
  shows "hd (splitEach sep (replaceSpaces s)) = hd (splitEach sep s)
         \<and> filter (\<lambda>w. w \<noteq> []) (tl (splitEach sep (replaceSpaces s)))
             = filter (\<lambda>w. w \<noteq> []) (tl (splitEach sep s))"
proof (induction s rule: replaceSpaces.induct)
  case 1
  show ?case by simp
next
  case (2 c cs)
  have sp: "isSpace 0x0020" by (simp add: isSpace_def)
  show ?case
  proof (cases "isSpace c")
    case True
    then have "specTokens sep (replaceSpaces (dropWhile isSpace cs))
                 = specTokens sep (dropWhile isSpace cs)"
      using 2 by (simp add: specTokens_hd_tl)
    also have "\<dots> = specTokens sep cs"
      using assms by (rule specTokens_dropWhile)
    finally show ?thesis
      using True assms sp by (simp add: specTokens_def)
  next
    case False
    have "specTokens sep (replaceSpaces cs) = specTokens sep cs"
      using 2 False by (simp add: specTokens_hd_tl)
    then show ?thesis
      using 2 False by (auto simp: specTokens_def)
  qed
qed

lemma specTokens_replaceSpaces:
  assumes "\<And>c. isSpace c \<Longrightarrow> sep c"
  shows "specTokens sep (replaceSpaces s) = specTokens sep s"
  using splitEach_replaceSpaces [where s = s and sep = sep] assms by (simp add: specTokens_hd_tl)

lemma splitEach_no_sep:
  "\<forall>c\<in>set a. \<not> sep c \<Longrightarrow>
     splitEach sep (a @ b) = (a @ hd (splitEach sep b)) # tl (splitEach sep b)"
  using splitEach_nonempty [of sep b] by (induction a) auto

lemma splitRuns_tokens:
  "filter (\<lambda>word. length word > 0) (splitRuns sep s) = specTokens sep s"
proof (induction sep s rule: splitRuns.induct)
  case (1 sep s)
  let ?a = "takeWhile (\<lambda>c. \<not> sep c) s"
  have s: "s = ?a @ dropWhile (\<lambda>c. \<not> sep c) s" by simp
  have a: "\<forall>c\<in>set ?a. \<not> sep c" by (auto dest: set_takeWhileD)
  show ?case
  proof (cases "dropWhile (\<lambda>c. \<not> sep c) s")
    case Nil
    then have "\<forall>c\<in>set s. \<not> sep c"
      by (simp add: dropWhile_eq_Nil_conv)
    then have "splitEach sep s = [s]"
      using splitEach_no_sep [where a = s and sep = sep and b = "[]"] by simp
    then have "specTokens sep s = filter (\<lambda>word. length word > 0) [s]"
      by (simp add: specTokens_def)
    then show ?thesis
      by (subst splitRuns.simps) (simp only: Nil list.case)
  next
    case (Cons c r)
    then have c: "sep c"
      using hd_dropWhile [of "\<lambda>c. \<not> sep c" s] by auto
    have "splitEach sep s = ?a # splitEach sep r"
      using splitEach_no_sep [OF a, of "c # r"] s c Cons by simp
    then have "specTokens sep s = filter (\<lambda>w. w \<noteq> []) [?a] @ specTokens sep r"
      by (simp add: specTokens_def)
    also have "specTokens sep r = specTokens sep (dropWhile sep r)"
      by (simp add: specTokens_dropWhile)
    also have "\<dots> = filter (\<lambda>word. length word > 0) (splitRuns sep (dropWhile sep r))"
      using 1 [OF Cons] by simp
    finally show ?thesis
      using Cons by (subst splitRuns.simps) simp
  qed
qed


section \<open>The camel-case normalizer\<close>

lemma isSpace_isSeparator: "isSpace c \<Longrightarrow> isSeparator c"
  by (simp add: isSeparator_def)

lemma specTokens_nonempty: "w \<in> set (specTokens sep s) \<Longrightarrow> w \<noteq> []"
  by (simp add: specTokens_def)

lemma camelWord_capitalize: "0 < m \<Longrightarrow> w \<noteq> [] \<Longrightarrow> camelWord cm m w = capitalize cm w"
  by (cases w) (simp_all add: camelWord_def)

lemma camel_later_words:
  "0 < m \<Longrightarrow> \<forall>w\<in>set ws. w \<noteq> [] \<Longrightarrow>
     concat (map (\<lambda>(index, word). camelWord cm index word) (zip [m..<m + length ws] ws))
       = concat (map (capitalize cm) ws)"
proof (induction ws arbitrary: m)
  case Nil
  show ?case by simp
next
  case (Cons w ws)
  have "[m..<m + length (w # ws)] = m # [Suc m..<m + length (w # ws)]"
    by (rule upt_conv_Cons) simp
  then have "[m..<m + length (w # ws)] = m # [Suc m..<Suc m + length ws]"
    by simp
  then show ?case
    using Cons.IH [of "Suc m"] Cons.prems by (simp add: camelWord_capitalize)
qed

lemma camel_words:
  assumes "\<forall>w\<in>set ws. w \<noteq> []"
  shows "concat (map (\<lambda>(index, word). camelWord cm index word) (zip [0..<length ws] ws))
     = (case ws of [] \<Rightarrow> [] | t # ts \<Rightarrow> toLowerCase cm t @ concat (map (capitalize cm) ts))"
proof (cases ws)
  case Nil
  then show ?thesis by simp
next
  case (Cons t ts)
  have "[0..<length (t # ts)] = 0 # [Suc 0..<length (t # ts)]"
    by (rule upt_conv_Cons) simp
  then have "[0..<length (t # ts)] = 0 # [Suc 0..<Suc 0 + length ts]"
    by simp
  moreover have "\<forall>w\<in>set ts. w \<noteq> []"
    using assms Cons by simp
  ultimately show ?thesis
    using Cons camel_later_words [of "Suc 0" ts cm] by (simp add: camelWord_def)
qed

lemma toCamelCase_tokens:
  "filter (\<lambda>word. length word > 0) (splitRuns isSeparator (replaceSpaces (trim str)))
     = specTokens isSeparator str"
  by (simp only: splitRuns_tokens specTokens_replaceSpaces [of isSeparator, OF isSpace_isSeparator]
        specTokens_trim [of isSeparator, OF isSpace_isSeparator])

lemma camel_tokenwise: "toCamelCase cm s = specCamel cm s"
  unfolding toCamelCase_def specCamel_def Let_def toCamelCase_tokens
  by (rule camel_words) (simp add: specTokens_nonempty)

lemma all_space_tokens: "\<forall>c\<in>set s. isSpace c \<Longrightarrow> specTokens isSeparator s = []"
  by (rule specTokens_all_sep) (simp add: isSpace_isSeparator)

text \<open>
  The result depends on the case mappings through the tokens only: mappings that treat
  ASCII strings as \<open>asciiMaps\<close> does give its results on every header whose tokens
  are ASCII, whatever white space separates them.
\<close>

lemma asciiCase_asciiMaps: "asciiCase asciiMaps"
  by (simp add: asciiCase_def asciiMaps_def)

lemma capitalize_ascii:
  assumes "asciiCase cm" and "list_all isAscii w"
  shows "capitalize cm w = capitalize asciiMaps w"
proof (cases w)
  case Nil
  then show ?thesis by simp
next
  case (Cons c cs)
  have "list_all isAscii [c]" and "list_all isAscii cs"
    using assms(2) Cons by simp_all
  then have "toUpperCase cm [c] = map asciiUpper [c]" and "toLowerCase cm cs = map asciiLower cs"
    using assms(1) unfolding asciiCase_def by blast+
  then show ?thesis
    using Cons by (simp add: asciiMaps_def)
qed

lemma splitEach_chars:
  "\<forall>w\<in>set (splitEach sep s). \<forall>c\<in>set w. c \<in> set s \<and> \<not> sep c"
proof (induction s)
  case Nil
  show ?case by simp
next
  case (Cons c cs)
  obtain w ws where w: "splitEach sep cs = w # ws"
    using splitEach_nonempty [of sep cs] by (cases "splitEach sep cs") auto
  show ?case
    using Cons w by auto
qed

lemma specTokens_chars:
  "w \<in> set (specTokens sep s) \<Longrightarrow> c \<in> set w \<Longrightarrow> c \<in> set s \<and> \<not> sep c"
  using splitEach_chars [of sep s] by (auto simp: specTokens_def)

lemma camel_ascii_tokens:
  assumes "asciiCase cm" and "list_all isAscii (filter (\<lambda>c. \<not> isSeparator c) s)"
  shows "toCamelCase cm s = toCamelCase asciiMaps s"
proof (cases "specTokens isSeparator s")
  case Nil
  then show ?thesis by (simp add: camel_tokenwise specCamel_def)
next
  case (Cons t ts)
  have all: "\<forall>w\<in>set (specTokens isSeparator s). list_all isAscii w"
    using assms(2) specTokens_chars [of _ isSeparator s] by (auto simp: list_all_iff)
  have t: "list_all isAscii t" and ts: "\<forall>w\<in>set ts. list_all isAscii w"
    using all Cons by simp_all
  have "toLowerCase cm t = map asciiLower t"
    using assms(1) t unfolding asciiCase_def by blast
  moreover have "map (capitalize cm) ts = map (capitalize asciiMaps) ts"
    using ts assms(1) by (simp add: capitalize_ascii)
  moreover have "toLowerCase asciiMaps t = map asciiLower t"
    by (simp add: asciiMaps_def)
  ultimately show ?thesis
    using Cons by (simp only: camel_tokenwise specCamel_def list.case)
qed

lemma camel_examples_ascii:
  "toCamelCase asciiMaps (ascii ''premiu turneu'') = ascii ''premiuTurneu''"
  "toCamelCase asciiMaps (ascii ''First Name'') = ascii ''firstName''"
  "toCamelCase asciiMaps (ascii ''user_email'') = ascii ''userEmail''"
  "toCamelCase asciiMaps (ascii ''product-category'') = ascii ''productCategory''"
  "toCamelCase asciiMaps (ascii ''Order   Date'') = ascii ''orderDate''"
  "toCamelCase asciiMaps (ascii ''total.amount'') = ascii ''totalAmount''"
  "toCamelCase asciiMaps (0x00A0 # ascii ''First'' @ 0x00A0 # ascii ''Name'') = ascii ''firstName''"
  by code_simp+

lemma example_tokens_ascii:
  "list_all isAscii (filter (\<lambda>c. \<not> isSeparator c) (ascii ''premiu turneu''))"
  "list_all isAscii (filter (\<lambda>c. \<not> isSeparator c) (ascii ''First Name''))"
  "list_all isAscii (filter (\<lambda>c. \<not> isSeparator c) (ascii ''user_email''))"
  "list_all isAscii (filter (\<lambda>c. \<not> isSeparator c) (ascii ''product-category''))"
  "list_all isAscii (filter (\<lambda>c. \<not> isSeparator c) (ascii ''Order   Date''))"
  "list_all isAscii (filter (\<lambda>c. \<not> isSeparator c) (ascii ''total.amount''))"
  "list_all isAscii
     (filter (\<lambda>c. \<not> isSeparator c) (0x00A0 # ascii ''First'' @ 0x00A0 # ascii ''Name''))"
  by code_simp+

lemma camel_examples:
  assumes "asciiCase cm"
  shows "toCamelCase cm (ascii ''premiu turneu'') = ascii ''premiuTurneu''"
    and "toCamelCase cm (ascii ''First Name'') = ascii ''firstName''"
    and "toCamelCase cm (ascii ''user_email'') = ascii ''userEmail''"
    and "toCamelCase cm (ascii ''product-category'') = ascii ''productCategory''"
    and "toCamelCase cm (ascii ''Order   Date'') = ascii ''orderDate''"
    and "toCamelCase cm (ascii ''total.amount'') = ascii ''totalAmount''"
    and "toCamelCase cm (0x00A0 # ascii ''First'' @ 0x00A0 # ascii ''Name'') = ascii ''firstName''"
  by (simp_all only: camel_ascii_tokens [OF assms example_tokens_ascii(1)]
        camel_ascii_tokens [OF assms example_tokens_ascii(2)]
        camel_ascii_tokens [OF assms example_tokens_ascii(3)]
        camel_ascii_tokens [OF assms example_tokens_ascii(4)]
        camel_ascii_tokens [OF assms example_tokens_ascii(5)]
        camel_ascii_tokens [OF assms example_tokens_ascii(6)]
        camel_ascii_tokens [OF assms example_tokens_ascii(7)]
        camel_examples_ascii)

lemma camel_empty: "toCamelCase cm [] = []" "toCamelCase cm (ascii ''   '') = []"
proof -
  show "toCamelCase cm [] = []"
    by (simp add: camel_tokenwise specCamel_def specTokens_def)
  have "specTokens isSeparator (ascii ''   '') = []"
    by (simp add: specTokens_def ascii_def isSeparator_def isSpace_def)
  then show "toCamelCase cm (ascii ''   '') = []"
    by (simp add: camel_tokenwise specCamel_def)
qed

text \<open>
  Claim C4. With \<open>camelCase\<close> true, the normalizer of the code computes what the
  specification words: the header is split at white space, hyphens, underscores and
  periods, empty tokens are dropped, the first token is lower-cased, every later token
  gets an upper-case first character and a lower-case rest, and the tokens are
  concatenated. This holds for every header, of any characters, and for every pair of
  case mappings. A header of white space only (or an empty one) gives the empty string.
  With case mappings that treat ASCII text in the usual way, the listed examples hold,
  also when no-break spaces stand for the spaces.
\<close>

theorem toCamelCase_spec:
  "toCamelCase cm s = specCamel cm s
   \<and> ((\<forall>c\<in>set s. isSpace c) \<longrightarrow> toCamelCase cm s = [])
   \<and> toCamelCase cm [] = []
   \<and> toCamelCase cm (ascii ''   '') = []
   \<and> (asciiCase cm \<longrightarrow>
        toCamelCase cm (ascii ''premiu turneu'') = ascii ''premiuTurneu''
        \<and> toCamelCase cm (ascii ''First Name'') = ascii ''firstName''
        \<and> toCamelCase cm (ascii ''user_email'') = ascii ''userEmail''
        \<and> toCamelCase cm (ascii ''product-category'') = ascii ''productCategory''
        \<and> toCamelCase cm (ascii ''Order   Date'') = ascii ''orderDate''
        \<and> toCamelCase cm (ascii ''total.amount'') = ascii ''totalAmount''
        \<and> toCamelCase cm (0x00A0 # ascii ''First'' @ 0x00A0 # ascii ''Name'')
            = ascii ''firstName'')"
proof -
  have "toCamelCase cm s = specCamel cm s"
    by (rule camel_tokenwise)
  moreover have "(\<forall>c\<in>set s. isSpace c) \<longrightarrow> toCamelCase cm s = []"
    by (simp add: camel_tokenwise specCamel_def all_space_tokens)
  moreover have "toCamelCase cm [] = []" and "toCamelCase cm (ascii ''   '') = []"
    by (rule camel_empty)+
  moreover have "asciiCase cm \<longrightarrow>
        toCamelCase cm (ascii ''premiu turneu'') = ascii ''premiuTurneu''
        \<and> toCamelCase cm (ascii ''First Name'') = ascii ''firstName''
        \<and> toCamelCase cm (ascii ''user_email'') = ascii ''userEmail''
        \<and> toCamelCase cm (ascii ''product-category'') = ascii ''productCategory''
        \<and> toCamelCase cm (ascii ''Order   Date'') = ascii ''orderDate''
        \<and> toCamelCase cm (ascii ''total.amount'') = ascii ''totalAmount''
        \<and> toCamelCase cm (0x00A0 # ascii ''First'' @ 0x00A0 # ascii ''Name'')
            = ascii ''firstName''"
    by (intro impI conjI) (erule camel_examples)+
  ultimately show ?thesis
    by (intro conjI)
qed

theorem toCamelCase_spec_witness:
  "toCamelCase asciiMaps (ascii ''Order of_the.day'')
     = specCamel asciiMaps (ascii ''Order of_the.day'')
   \<and> toCamelCase asciiMaps [0x0009, 0x00A0, 0x3000] = []
   \<and> toCamelCase asciiMaps (ascii ''First Name'') = ascii ''firstName''
   \<and> toCamelCase asciiMaps (0x00A0 # ascii ''First'' @ 0x00A0 # ascii ''Name'')
       = ascii ''firstName''"
proof -
  have sp: "\<forall>c\<in>set [0x0009, 0x00A0, 0x3000]. isSpace c"
    by (simp add: isSpace_def)
  have "toCamelCase asciiMaps [0x0009, 0x00A0, 0x3000] = []"
    using toCamelCase_spec [of asciiMaps "[0x0009, 0x00A0, 0x3000]"] sp by (elim conjE) simp
  moreover have "toCamelCase asciiMaps (ascii ''Order of_the.day'')
                   = specCamel asciiMaps (ascii ''Order of_the.day'')"
    using toCamelCase_spec [of asciiMaps "ascii ''Order of_the.day''"] by (elim conjE)
  moreover have "toCamelCase asciiMaps (ascii ''First Name'') = ascii ''firstName''
      \<and> toCamelCase asciiMaps (0x00A0 # ascii ''First'' @ 0x00A0 # ascii ''Name'')
          = ascii ''firstName''"
    using toCamelCase_spec [of asciiMaps "[]"] asciiCase_asciiMaps by (elim conjE) simp
  ultimately show ?thesis
    by (intro conjI) simp_all
qed


section \<open>The pass-through normalizer\<close>

lemma joinWith_Cons_Cons: "joinWith sep ((c # w) # ws) = c # joinWith sep (w # ws)"
  by (cases ws) simp_all

lemma specTokens_has_word: "\<exists>c\<in>set s. \<not> sep c \<Longrightarrow> specTokens sep s \<noteq> []"
  by (induction s) (auto simp: specTokens_def)

lemma specTokens_word_Cons:
  assumes c: "\<not> sep c"
  shows "joinWith j (specTokens sep (c # cs))
       = c # (if cs \<noteq> [] \<and> sep (hd cs) \<and> specTokens sep cs \<noteq> []
              then j @ joinWith j (specTokens sep cs)
              else joinWith j (specTokens sep cs))"
proof (cases cs)
  case Nil
  then show ?thesis using c by (simp add: specTokens_def)
next
  case (Cons d ds)
  show ?thesis
  proof (cases "sep d")
    case True
    then have "specTokens sep (c # cs) = [c] # specTokens sep cs"
      using c Cons by (simp add: specTokens_def)
    then show ?thesis
      using True Cons by (cases "specTokens sep cs") simp_all
  next
    case False
    then have "specTokens sep (c # cs)
                 = (c # hd (splitEach sep cs)) # filter (\<lambda>w. w \<noteq> []) (tl (splitEach sep cs))"
      using c by (simp add: specTokens_def)
    moreover have "specTokens sep cs
                 = hd (splitEach sep cs) # filter (\<lambda>w. w \<noteq> []) (tl (splitEach sep cs))"
      using False Cons by (simp add: specTokens_def)
    ultimately show ?thesis
      using False Cons by (simp add: joinWith_Cons_Cons)
  qed
qed

lemma replaceSpaces_join:
  "s = [] \<or> \<not> isSpace (last s) \<Longrightarrow>
     replaceSpaces s
       = (if s \<noteq> [] \<and> isSpace (hd s) then [0x0020] @ joinWith [0x0020] (specTokens isSpace s)
          else joinWith [0x0020] (specTokens isSpace s))"
proof (induction s rule: replaceSpaces.induct)
  case 1
  show ?case by (simp add: specTokens_def)
next
  case (2 c cs)
  show ?case
  proof (cases "isSpace c")
    case True
    let ?d = "dropWhile isSpace cs"
    have "\<not> (\<forall>x\<in>set cs. isSpace x)"
      using 2(3) True by (cases cs rule: rev_cases) auto
    then have d: "?d \<noteq> []"
      by (simp add: dropWhile_eq_Nil_conv)
    then have hd: "\<not> isSpace (hd ?d)"
      using hd_dropWhile by blast
    have "cs = takeWhile isSpace cs @ ?d" by simp
    then have "last cs = last ?d"
      using d by (metis last_appendR)
    moreover have "cs \<noteq> []" using d by auto
    ultimately have "\<not> isSpace (last ?d)"
      using 2(3) by simp
    then have "replaceSpaces ?d = joinWith [0x0020] (specTokens isSpace ?d)"
      using 2(1) True hd d by simp
    moreover have "specTokens isSpace ?d = specTokens isSpace (c # cs)"
      using True by (simp add: specTokens_dropWhile specTokens_sep_Cons)
    ultimately show ?thesis
      using True by simp
  next
    case False
    have last: "cs = [] \<or> \<not> isSpace (last cs)"
      using 2(3) by (cases cs) auto
    then have tok: "cs \<noteq> [] \<Longrightarrow> specTokens isSpace cs \<noteq> []"
      by (intro specTokens_has_word) (metis last_in_set)
    have "replaceSpaces cs
            = (if cs \<noteq> [] \<and> isSpace (hd cs) then [0x0020] @ joinWith [0x0020] (specTokens isSpace cs)
               else joinWith [0x0020] (specTokens isSpace cs))"
      using 2(2) [OF False last] .
    then show ?thesis
      using False tok by (simp add: specTokens_word_Cons)
  qed
qed

lemma rev_dropWhile_ends:
  assumes "rev (dropWhile p (rev u)) \<noteq> []"
  shows "\<not> p (last (rev (dropWhile p (rev u)))) \<and> hd (rev (dropWhile p (rev u))) = hd u"
proof -
  let ?r = "dropWhile p (rev u)"
  have r: "?r \<noteq> []" using assms by simp
  then have "\<not> p (hd ?r)"
    using hd_dropWhile by blast
  then have l: "\<not> p (last (rev ?r))"
    using r by (simp add: last_rev)
  have "rev u = takeWhile p (rev u) @ ?r" by simp
  then have "u = rev ?r @ rev (takeWhile p (rev u))"
    by (metis rev_append rev_rev_ident)
  then have "hd u = hd (rev ?r)"
    using assms by (metis hd_append2)
  then show ?thesis using l by simp
qed

lemma trim_ends: "trim s = [] \<or> (\<not> isSpace (hd (trim s)) \<and> \<not> isSpace (last (trim s)))"
proof (cases "trim s = []")
  case True
  then show ?thesis by simp
next
  case False
  let ?u = "dropWhile isSpace s"
  have t: "trim s = rev (dropWhile isSpace (rev ?u))"
    by (simp add: trim_def)
  then have e: "\<not> isSpace (last (trim s)) \<and> hd (trim s) = hd ?u"
    using False rev_dropWhile_ends [of isSpace ?u] by simp
  have "?u \<noteq> []"
  proof
    assume a: "?u = []"
    have "trim s = []" unfolding t a by simp
    then show False using False by simp
  qed
  then have "\<not> isSpace (hd ?u)"
    using hd_dropWhile by blast
  then show ?thesis using e by simp
qed

lemma cleanKey_specCollapse: "replaceSpaces (trim s) = specCollapse s"
proof -
  have "replaceSpaces (trim s) = joinWith [0x0020] (specTokens isSpace (trim s))"
    using replaceSpaces_join [of "trim s"] trim_ends [of s] by auto
  then show ?thesis
    by (simp add: specCollapse_def specTokens_trim)
qed

lemma filter_dropWhile_neg:
  "(\<And>x. q x \<Longrightarrow> \<not> p x) \<Longrightarrow> filter p (dropWhile q xs) = filter p xs"
  by (induction xs) auto

lemma isSpace_space: "isSpace 0x0020"
  by (simp add: isSpace_def)

lemma filter_replaceSpaces:
  "filter (\<lambda>c. \<not> isSpace c) (replaceSpaces s) = filter (\<lambda>c. \<not> isSpace c) s"
  by (induction s rule: replaceSpaces.induct) (auto simp: filter_dropWhile_neg isSpace_space)

lemma filter_trim: "filter (\<lambda>c. \<not> isSpace c) (trim s) = filter (\<lambda>c. \<not> isSpace c) s"
  unfolding trim_def rev_filter [symmetric]
  by (simp add: filter_dropWhile_neg rev_filter)

lemma first_name_example:
  "replaceSpaces (trim (ascii ''  First   Name '')) = ascii ''First Name''"
  "replaceSpaces (trim (0x00A0 # ascii ''First'' @ [0x00A0, 0x3000] @ ascii ''Name''))
     = ascii ''First Name''"
  by code_simp+

text \<open>
  Claim C9. With \<open>camelCase\<close> false, the column name is the header's
  white-space-separated words joined by single spaces: trimmed, every run of white space
  collapsed to one space. Every character that is not white space is kept as it is and
  in its place, so letter case and the separators other than white space are preserved;
  no case mapping is applied. White space is all that \<open>\s\<close> matches, the no-break
  space and the ideographic space among it. The header \<open>"  First   Name "\<close> gives
  \<open>"First Name"\<close>.
\<close>

theorem cleanKey_passthrough:
  "cleanKeyOf cm False key = specCollapse key
   \<and> filter (\<lambda>c. \<not> isSpace c) (cleanKeyOf cm False key) = filter (\<lambda>c. \<not> isSpace c) key
   \<and> cleanKeyOf cm False (ascii ''  First   Name '') = ascii ''First Name''
   \<and> cleanKeyOf cm False (0x00A0 # ascii ''First'' @ [0x00A0, 0x3000] @ ascii ''Name'')
       = ascii ''First Name''"
proof -
  have "cleanKeyOf cm False key = specCollapse key"
    by (simp add: cleanKeyOf_def cleanKey_specCollapse)
  moreover have "filter (\<lambda>c. \<not> isSpace c) (cleanKeyOf cm False key)
                   = filter (\<lambda>c. \<not> isSpace c) key"
    by (simp add: cleanKeyOf_def filter_replaceSpaces filter_trim)
  moreover have "cleanKeyOf cm False (ascii ''  First   Name '') = ascii ''First Name''"
    by (simp only: cleanKeyOf_def if_False first_name_example)
  moreover have "cleanKeyOf cm False (0x00A0 # ascii ''First'' @ [0x00A0, 0x3000] @ ascii ''Name'')
                   = ascii ''First Name''"
    by (simp only: cleanKeyOf_def if_False first_name_example)
  ultimately show ?thesis
    by (intro conjI)
qed

theorem cleanKey_passthrough_witness:
  "cleanKeyOf asciiMaps False (ascii ''user_email  Address'')
     = specCollapse (ascii ''user_email  Address'')
   \<and> cleanKeyOf asciiMaps False (ascii ''  First   Name '') = ascii ''First Name''"
  using cleanKey_passthrough [of asciiMaps "ascii ''user_email  Address''"]
  by (elim conjE) (intro conjI)


section \<open>Objects and the row loop\<close>

lemma setProp_keys:
  "map fst (setProp obj k v) = (if k \<in> set (map fst obj) then map fst obj else map fst obj @ [k])"
proof -
  have "map fst (map (\<lambda>(k', v'). if k' = k then (k', v) else (k', v')) obj) = map fst obj"
    by (induction obj) auto
  then show ?thesis
    by (simp add: setProp_def)
qed

lemma set_setProp_keys: "fst ` set (setProp obj k v) = insert k (fst ` set obj)"
proof -
  have "set (map fst (setProp obj k v)) = insert k (set (map fst obj))"
    unfolding setProp_keys by auto
  then show ?thesis by simp
qed

lemma distinct_setProp:
  assumes "distinct (map fst obj)"
  shows "distinct (map fst (setProp obj k v))"
proof (cases "k \<in> set (map fst obj)")
  case True
  then have "map fst (setProp obj k v) = map fst obj"
    by (simp only: setProp_keys if_True)
  then show ?thesis using assms by simp
next
  case False
  then have "map fst (setProp obj k v) = map fst obj @ [k]"
    by (simp only: setProp_keys if_False)
  then show ?thesis using assms False by simp
qed

lemma map_of_update:
  "map_of (map (\<lambda>(a, b). if a = k then (a, v) else (a, b)) obj) x
     = (if x = k \<and> k \<in> fst ` set obj then Some v else map_of obj x)"
proof (induction obj)
  case Nil
  show ?case by simp
next
  case (Cons p ps)
  obtain a b where p: "p = (a, b)" by (cases p)
  show ?case
    unfolding p using Cons.IH by (cases "a = k"; cases "x = k"; simp)
qed

lemma getProp_setProp:
  "getProp (setProp obj k v) x = (if x = k then Some v else getProp obj x)"
proof (cases "k \<in> fst ` set obj")
  case True
  then show ?thesis
    by (simp add: setProp_def getProp_def map_of_update)
next
  case False
  then have "map_of obj k = None"
    by (simp add: map_of_eq_None_iff)
  then show ?thesis
    using False by (auto simp: setProp_def getProp_def map_add_def split: option.splits)
qed

lemma setProp_nonempty: "setProp obj k v \<noteq> []"
  by (cases obj) (simp_all add: setProp_def)

lemma hd_setProp: "obj \<noteq> [] \<Longrightarrow> fst (hd (setProp obj k v)) = fst (hd obj)"
proof (cases obj)
  case Nil
  assume "obj \<noteq> []"
  then show ?thesis using Nil by simp
next
  case (Cons p ps)
  obtain k' v' where "p = (k', v')" by (cases p)
  then show ?thesis
    using Cons by (simp add: setProp_def)
qed

lemma count_key_distinct:
  "distinct (map fst obj) \<Longrightarrow> k \<in> fst ` set obj \<Longrightarrow>
     length (filter (\<lambda>p. fst p = k) obj) = 1"
proof (induction obj)
  case Nil
  then show ?case by simp
next
  case (Cons p ps)
  show ?case
  proof (cases "fst p = k")
    case True
    then have "k \<notin> fst ` set ps" using Cons.prems by auto
    then have "filter (\<lambda>p. fst p = k) ps = []"
      by (auto simp: filter_empty_conv)
    then show ?thesis using True by simp
  next
    case False
    then show ?thesis using Cons by auto
  qed
qed

lemma convertValue_cases:
  "convertValue v =
     (case v of
        DateV None \<Rightarrow> Inl (RangeError ''Invalid time value'')
      | DateV (Some t) \<Rightarrow> Inr (Str (splitTFirst (isoDate t @ ''T'' @ isoTime t @ ''Z'')))
      | Null \<Rightarrow> Inr Null
      | Undefined \<Rightarrow> Inr Null
      | Str s \<Rightarrow> if s = [] then Inr Null else Inr (Str s)
      | _ \<Rightarrow> Inr v)"
  by (simp add: convertValue_def toISOString_def split: cell.splits option.splits)

lemma convertValue_total: "v \<noteq> DateV None \<Longrightarrow> \<exists>v'. convertValue v = Inr v'"
  by (simp add: convertValue_cases split: cell.splits option.splits)

lemma id_not_proto: "ascii ''id'' \<noteq> ascii ''__proto__''"
  by (simp add: ascii_def)

lemma assignCell_plain:
  "k \<noteq> ascii ''__proto__'' \<Longrightarrow> props (assignCell obj k v) = setProp (props obj) k v"
  by (simp add: assignCell_def)

lemma assignCell_props:
  "props (assignCell obj k v) = props obj \<or> props (assignCell obj k v) = setProp (props obj) k v"
  by (simp add: assignCell_def)

lemma assignCell_keys:
  "fst ` set (props (assignCell obj k v)) \<subseteq> insert k (fst ` set (props obj))"
proof (cases "props (assignCell obj k v) = props obj")
  case True
  then show ?thesis by auto
next
  case False
  then have "props (assignCell obj k v) = setProp (props obj) k v"
    using assignCell_props [of obj k v] by blast
  then show ?thesis
    by (simp only: set_setProp_keys)
qed

lemma assignCell_distinct:
  "distinct (map fst (props obj)) \<Longrightarrow> distinct (map fst (props (assignCell obj k v)))"
  using assignCell_props [of obj k v] distinct_setProp [of "props obj" k v] by auto

lemma assignCell_first:
  "props obj \<noteq> [] \<Longrightarrow>
     props (assignCell obj k v) \<noteq> []
     \<and> fst (hd (props (assignCell obj k v))) = fst (hd (props obj))"
  using assignCell_props [of obj k v] setProp_nonempty [of "props obj" k v]
    hd_setProp [of "props obj" k v] by auto

lemma assignCell_untouched:
  "x \<noteq> k \<Longrightarrow> getProp (props (assignCell obj k v)) x = getProp (props obj) x"
  using assignCell_props [of obj k v] getProp_setProp [of "props obj" k v x] by auto

lemma assignCell_written:
  "k \<noteq> ascii ''__proto__'' \<Longrightarrow> getProp (props (assignCell obj k v)) k = Some v"
  by (simp add: assignCell_plain getProp_setProp)

lemma assignCell_accessor:
  assumes "inheritsAccessor obj" and "ascii ''__proto__'' \<notin> fst ` set (props obj)"
    and "k = ascii ''__proto__'' \<longrightarrow> v \<noteq> Null"
  shows "inheritsAccessor (assignCell obj k v)
         \<and> ascii ''__proto__'' \<notin> fst ` set (props (assignCell obj k v))"
proof (cases "k = ascii ''__proto__''")
  case True
  then show ?thesis using assms by (simp add: assignCell_def)
next
  case False
  then have "assignCell obj k v = obj\<lparr>props := setProp (props obj) k v\<rparr>"
    by (simp add: assignCell_def)
  then show ?thesis
    using assms(1,2) False by (simp add: set_setProp_keys)
qed

lemma assignCell_id:
  "assignCell emptyObject (ascii ''id'') v
     = \<lparr>props = [(ascii ''id'', v)], inheritsAccessor = True\<rparr>"
  by (simp add: assignCell_def emptyObject_def id_not_proto setProp_def)

lemma start_object:
  "props (if addId then assignCell emptyObject (ascii ''id'') v else emptyObject)
     = (if addId then [(ascii ''id'', v)] else [])"
  "inheritsAccessor (if addId then assignCell emptyObject (ascii ''id'') v else emptyObject)"
  by (simp_all add: assignCell_id) (simp_all add: emptyObject_def)

lemma rowLoop_append:
  "rowLoop cm camelCase (a @ b) cleanRow =
     (case rowLoop cm camelCase a cleanRow of
        Inl e \<Rightarrow> Inl e
      | Inr m \<Rightarrow> rowLoop cm camelCase b m)"
  by (induction a arbitrary: cleanRow) (auto simp: Let_def split: sum.splits)

lemma rowLoop_total:
  "\<forall>(k, v)\<in>set r. cleanKeyOf cm camelCase k \<noteq> [] \<longrightarrow> v \<noteq> DateV None \<Longrightarrow>
     \<exists>obj. rowLoop cm camelCase r cleanRow = Inr obj"
proof (induction r arbitrary: cleanRow)
  case Nil
  show ?case by simp
next
  case (Cons p r)
  obtain k v where p: "p = (k, v)" by (cases p)
  show ?case
  proof (cases "cleanKeyOf cm camelCase k = []")
    case True
    then show ?thesis using Cons p by simp
  next
    case False
    then obtain v' where "convertValue v = Inr v'"
      using Cons.prems p convertValue_total by auto
    then show ?thesis using Cons p False by simp
  qed
qed

lemma rowLoop_keys:
  "rowLoop cm camelCase r cleanRow = Inr obj \<Longrightarrow>
     fst ` set (props obj)
       \<subseteq> fst ` set (props cleanRow)
           \<union> {c. c \<noteq> [] \<and> c \<in> cleanKeyOf cm camelCase ` fst ` set r}"
proof (induction r arbitrary: cleanRow)
  case Nil
  then show ?case by simp
next
  case (Cons p r)
  obtain k v where p: "p = (k, v)" by (cases p)
  show ?case
  proof (cases "cleanKeyOf cm camelCase k = []")
    case True
    then show ?thesis using Cons p by auto
  next
    case False
    then obtain v' where v': "convertValue v = Inr v'"
      and r: "rowLoop cm camelCase r (assignCell cleanRow (cleanKeyOf cm camelCase k) v') = Inr obj"
      using Cons.prems p by (auto split: sum.splits)
    have 1: "fst ` set (props obj)
       \<subseteq> fst ` set (props (assignCell cleanRow (cleanKeyOf cm camelCase k) v'))
           \<union> {c. c \<noteq> [] \<and> c \<in> cleanKeyOf cm camelCase ` fst ` set r}"
      using Cons.IH [OF r] .
    have 2: "fst ` set (props (assignCell cleanRow (cleanKeyOf cm camelCase k) v'))
       \<subseteq> insert (cleanKeyOf cm camelCase k) (fst ` set (props cleanRow))"
      by (rule assignCell_keys)
    have 3: "{c. c \<noteq> [] \<and> c \<in> cleanKeyOf cm camelCase ` fst ` set (p # r)}
       = insert (cleanKeyOf cm camelCase k)
           {c. c \<noteq> [] \<and> c \<in> cleanKeyOf cm camelCase ` fst ` set r}"
      using False p by auto
    show ?thesis
      using 1 2 unfolding 3 by blast
  qed
qed

lemma rowLoop_distinct:
  "rowLoop cm camelCase r cleanRow = Inr obj \<Longrightarrow> distinct (map fst (props cleanRow)) \<Longrightarrow>
     distinct (map fst (props obj))"
proof (induction r arbitrary: cleanRow)
  case Nil
  then show ?case by simp
next
  case (Cons p r)
  obtain k v where p: "p = (k, v)" by (cases p)
  show ?case
    using Cons p by (auto simp: Let_def assignCell_distinct split: if_splits sum.splits)
qed

lemma rowLoop_first:
  "rowLoop cm camelCase r cleanRow = Inr obj \<Longrightarrow> props cleanRow \<noteq> [] \<Longrightarrow>
     props obj \<noteq> [] \<and> fst (hd (props obj)) = fst (hd (props cleanRow))"
proof (induction r arbitrary: cleanRow)
  case Nil
  then show ?case by simp
next
  case (Cons p r)
  obtain k v where p: "p = (k, v)" by (cases p)
  show ?case
    using Cons p by (auto simp: Let_def assignCell_first split: if_splits sum.splits)
qed

lemma rowLoop_untouched:
  "rowLoop cm camelCase r cleanRow = Inr obj \<Longrightarrow>
     \<forall>(k, v)\<in>set r. cleanKeyOf cm camelCase k \<noteq> c \<Longrightarrow>
     getProp (props obj) c = getProp (props cleanRow) c"
proof (induction r arbitrary: cleanRow)
  case Nil
  then show ?case by simp
next
  case (Cons p r)
  obtain k v where p: "p = (k, v)" by (cases p)
  show ?case
    using Cons p by (auto simp: Let_def assignCell_untouched split: if_splits sum.splits)
qed

lemma rowLoop_last_write:
  assumes "rowLoop cm camelCase (pre @ (k, v) # post) cleanRow = Inr obj"
    and "cleanKeyOf cm camelCase k = c" and "c \<noteq> []" and "c \<noteq> ascii ''__proto__''"
    and "\<forall>(k', v')\<in>set post. cleanKeyOf cm camelCase k' \<noteq> c"
  shows "\<exists>v'. convertValue v = Inr v' \<and> getProp (props obj) c = Some v'"
proof -
  obtain m where m: "rowLoop cm camelCase pre cleanRow = Inr m"
    and r: "rowLoop cm camelCase ((k, v) # post) m = Inr obj"
    using assms(1) by (auto simp: rowLoop_append split: sum.splits)
  obtain v' where v': "convertValue v = Inr v'"
    and p: "rowLoop cm camelCase post (assignCell m c v') = Inr obj"
    using r assms(2,3) by (auto split: sum.splits)
  have "getProp (props obj) c = getProp (props (assignCell m c v')) c"
    using rowLoop_untouched [OF p assms(5)] .
  then show ?thesis
    using v' assms(4) by (simp add: assignCell_written)
qed

lemma convertValue_Null:
  "convertValue v = Inr Null \<longleftrightarrow> v = Null \<or> v = Undefined \<or> v = Str []"
  by (simp add: convertValue_cases split: cell.splits option.splits)

lemma rowLoop_accessor:
  "rowLoop cm camelCase r cleanRow = Inr obj \<Longrightarrow>
     inheritsAccessor cleanRow \<Longrightarrow> ascii ''__proto__'' \<notin> fst ` set (props cleanRow) \<Longrightarrow>
     \<forall>(k, v)\<in>set r. cleanKeyOf cm camelCase k = ascii ''__proto__'' \<longrightarrow>
                      v \<noteq> Null \<and> v \<noteq> Undefined \<and> v \<noteq> Str [] \<Longrightarrow>
     ascii ''__proto__'' \<notin> fst ` set (props obj)"
proof (induction r arbitrary: cleanRow)
  case Nil
  then show ?case by simp
next
  case (Cons p r)
  obtain k v where p: "p = (k, v)" by (cases p)
  have rest: "\<forall>(k, v)\<in>set r. cleanKeyOf cm camelCase k = ascii ''__proto__'' \<longrightarrow>
                      v \<noteq> Null \<and> v \<noteq> Undefined \<and> v \<noteq> Str []"
    using Cons.prems(4) by simp
  show ?case
  proof (cases "cleanKeyOf cm camelCase k = []")
    case True
    then have "rowLoop cm camelCase r cleanRow = Inr obj"
      using Cons.prems(1) p by simp
    then show ?thesis
      using Cons.IH Cons.prems(2,3) rest by blast
  next
    case False
    then obtain v' where v': "convertValue v = Inr v'"
      and r: "rowLoop cm camelCase r (assignCell cleanRow (cleanKeyOf cm camelCase k) v') = Inr obj"
      using Cons.prems(1) p by (auto split: sum.splits)
    have "cleanKeyOf cm camelCase k = ascii ''__proto__'' \<longrightarrow> v' \<noteq> Null"
      using Cons.prems(4) p v' convertValue_Null [of v] by auto
    then have "inheritsAccessor (assignCell cleanRow (cleanKeyOf cm camelCase k) v')
         \<and> ascii ''__proto__''
             \<notin> fst ` set (props (assignCell cleanRow (cleanKeyOf cm camelCase k) v'))"
      using assignCell_accessor [OF Cons.prems(2,3)] by blast
    then show ?thesis
      using Cons.IH [OF r] rest by blast
  qed
qed

lemma rowLoop_skip:
  "rowLoop cm camelCase r cleanRow
     = rowLoop cm camelCase (filter (\<lambda>(k, v). cleanKeyOf cm camelCase k \<noteq> []) r) cleanRow"
  by (induction r arbitrary: cleanRow) (auto simp: Let_def split: sum.splits)

lemma mapRows_Inr_iff:
  "mapRows f xs n = Inr out \<longleftrightarrow>
     length out = length xs \<and> (\<forall>i<length xs. f (xs ! i) (n + i) = Inr (out ! i))"
proof (induction xs arbitrary: n out)
  case Nil
  show ?case by auto
next
  case (Cons x xs)
  show ?case
  proof (cases out)
    case Nil
    then show ?thesis by (auto split: sum.splits)
  next
    case (Cons y ys)
    have "(\<forall>i<Suc (length xs). f ((x # xs) ! i) (n + i) = Inr ((y # ys) ! i))
            \<longleftrightarrow> f x n = Inr y \<and> (\<forall>i<length xs. f (xs ! i) (Suc n + i) = Inr (ys ! i))"
      by (auto simp: less_Suc_eq_0_disj)
    then show ?thesis
      using Cons Cons.IH [of "Suc n" ys] by (auto split: sum.splits)
  qed
qed

lemma mapRows_total:
  "\<forall>i<length xs. \<exists>y. f (xs ! i) (n + i) = Inr y \<Longrightarrow> \<exists>out. mapRows f xs n = Inr out"
proof (induction xs arbitrary: n)
  case Nil
  show ?case by simp
next
  case (Cons x xs)
  have "\<forall>i<length xs. \<exists>y. f (xs ! i) (Suc n + i) = Inr y"
    using Cons.prems by (auto simp: less_Suc_eq_0_disj)
  then obtain ys where "mapRows f xs (Suc n) = Inr ys"
    using Cons.IH by blast
  moreover obtain y where "f x n = Inr y"
    using Cons.prems by fastforce
  ultimately show ?case by simp
qed

lemma processSheetData_filter:
  "processSheetData cm (Some data) addId camelCase
     = mapRows (processRow cm addId camelCase) (filter hasValue data) 0"
  by (cases data) (simp_all add: processSheetData_def)

lemma processSheetData_rows:
  "processSheetData cm (Some data) addId camelCase = Inr out \<longleftrightarrow>
     length out = length (filter hasValue data)
     \<and> (\<forall>i<length (filter hasValue data).
          processRow cm addId camelCase (filter hasValue data ! i) i = Inr (out ! i))"
  by (simp add: processSheetData_filter mapRows_Inr_iff)

lemma hasValue_iff:
  "hasValue r \<longleftrightarrow> \<not> (\<forall>v\<in>set (map snd r). v = Null \<or> v = Undefined \<or> v = Str [])"
  by (auto simp: hasValue_def list_ex_iff)

lemma processRow_loop:
  "processRow cm addId camelCase r index = Inr obj \<longleftrightarrow>
     (\<exists>m. rowLoop cm camelCase r
             (if addId then assignCell emptyObject (ascii ''id'') (Num (int index))
              else emptyObject) = Inr m
          \<and> obj = props m)"
  by (auto simp: processRow_def split: sum.splits)

lemma processRow_total:
  assumes "\<forall>(k, v)\<in>set r. v \<noteq> DateV None"
  shows "\<exists>obj. processRow cm addId camelCase r index = Inr obj"
proof -
  have "\<forall>(k, v)\<in>set r. cleanKeyOf cm camelCase k \<noteq> [] \<longrightarrow> v \<noteq> DateV None"
    using assms by auto
  then obtain m where
    "rowLoop cm camelCase r
       (if addId then assignCell emptyObject (ascii ''id'') (Num (int index)) else emptyObject)
     = Inr m"
    using rowLoop_total by blast
  then show ?thesis
    by (simp add: processRow_def)
qed

lemma processSheetData_total:
  assumes "\<forall>r\<in>set data. \<forall>(k, v)\<in>set r. v \<noteq> DateV None"
  shows "\<exists>out. processSheetData cm (Some data) addId camelCase = Inr out"
  unfolding processSheetData_filter
proof (rule mapRows_total, intro allI impI)
  fix i assume "i < length (filter hasValue data)"
  then have "filter hasValue data ! i \<in> set data"
    using nth_mem [of i "filter hasValue data"] by auto
  then have "\<forall>(k, v)\<in>set (filter hasValue data ! i). v \<noteq> DateV None"
    using assms by blast
  then show "\<exists>y. processRow cm addId camelCase (filter hasValue data ! i) (0 + i) = Inr y"
    by (rule processRow_total)
qed

lemma set_ownKeys: "set (ownKeys obj) = fst ` set obj"
  by (auto simp: ownKeys_def Let_def)

lemma ownKeys_no_index:
  "\<not> (\<exists>k\<in>fst ` set obj. isArrayIndex k) \<Longrightarrow> ownKeys obj = map fst obj"
proof -
  assume a: "\<not> (\<exists>k\<in>fst ` set obj. isArrayIndex k)"
  then have "filter isArrayIndex (map fst obj) = []"
    by (auto simp: filter_empty_conv)
  moreover have "filter (\<lambda>k. \<not> isArrayIndex k) (map fst obj) = map fst obj"
    using a by (auto simp: filter_id_conv)
  ultimately show ?thesis
    by (simp add: ownKeys_def)
qed

lemma id_not_index: "\<not> isArrayIndex (ascii ''id'')"
  by (simp add: isArrayIndex_def isDecimalDigit_def ascii_def)

lemma ownKeys_first_id:
  assumes "obj \<noteq> []" and "fst (hd obj) = ascii ''id''"
  shows "hd (ownKeys obj) = ascii ''id'' \<longleftrightarrow> \<not> (\<exists>k\<in>fst ` set obj. isArrayIndex k)"
proof (cases "\<exists>k\<in>fst ` set obj. isArrayIndex k")
  case False
  then have "ownKeys obj = map fst obj" by (rule ownKeys_no_index)
  then show ?thesis using assms False by (simp add: hd_map)
next
  case True
  let ?ix = "sort_key decValue (filter isArrayIndex (map fst obj))"
  obtain k where k: "k \<in> fst ` set obj" "isArrayIndex k"
    using True by blast
  have "set ?ix = {k \<in> fst ` set obj. isArrayIndex k}" by auto
  then have "k \<in> set ?ix" using k by blast
  then have ne: "?ix \<noteq> []" by (metis empty_iff empty_set)
  then have "hd ?ix \<in> set ?ix" by (rule hd_in_set)
  then have "isArrayIndex (hd ?ix)" by auto
  moreover have "hd (ownKeys obj) = hd ?ix"
    using ne by (simp add: ownKeys_def Let_def)
  ultimately show ?thesis
    using True id_not_index by auto
qed

lemma processRow_with_id:
  "processRow cm True camelCase r index = Inr obj \<longleftrightarrow>
     (\<exists>m. rowLoop cm camelCase r
             \<lparr>props = [(ascii ''id'', Num (int index))], inheritsAccessor = True\<rparr> = Inr m
          \<and> obj = props m)"
  by (simp add: processRow_loop assignCell_id)

lemma processRow_distinct:
  assumes "processRow cm addId camelCase r index = Inr obj"
  shows "distinct (map fst obj)"
proof -
  obtain m where m: "rowLoop cm camelCase r
             (if addId then assignCell emptyObject (ascii ''id'') (Num (int index))
              else emptyObject) = Inr m" and obj: "obj = props m"
    using assms unfolding processRow_loop by blast
  have "distinct (map fst (props (if addId then assignCell emptyObject (ascii ''id'') (Num (int index))
              else emptyObject)))"
    by (simp add: start_object)
  then show ?thesis
    using rowLoop_distinct [OF m] obj by simp
qed

lemma processRow_id_first:
  assumes "processRow cm True camelCase r index = Inr obj"
  shows "obj \<noteq> [] \<and> fst (hd obj) = ascii ''id'' \<and> distinct (map fst obj)"
proof -
  obtain m where r: "rowLoop cm camelCase r
             \<lparr>props = [(ascii ''id'', Num (int index))], inheritsAccessor = True\<rparr> = Inr m"
    and obj: "obj = props m"
    using assms unfolding processRow_with_id by blast
  show ?thesis
    using rowLoop_first [OF r] processRow_distinct [OF assms] obj by simp
qed

lemma processRow_id_kept:
  assumes "processRow cm True camelCase r index = Inr obj"
    and "\<forall>(k, v)\<in>set r. cleanKeyOf cm camelCase k \<noteq> ascii ''id''"
  shows "getProp obj (ascii ''id'') = Some (Num (int index))"
proof -
  obtain m where r: "rowLoop cm camelCase r
             \<lparr>props = [(ascii ''id'', Num (int index))], inheritsAccessor = True\<rparr> = Inr m"
    and obj: "obj = props m"
    using assms(1) unfolding processRow_with_id by blast
  show ?thesis
    using rowLoop_untouched [OF r assms(2)] obj by (simp add: getProp_def)
qed

lemma processRow_last_write:
  assumes "processRow cm addId camelCase (pre @ (k, v) # post) index = Inr obj"
    and "cleanKeyOf cm camelCase k = c" and "c \<noteq> []" and "c \<noteq> ascii ''__proto__''"
    and "\<forall>(k', v')\<in>set post. cleanKeyOf cm camelCase k' \<noteq> c"
  shows "\<exists>v'. convertValue v = Inr v' \<and> getProp obj c = Some v'"
proof -
  obtain m where m: "rowLoop cm camelCase (pre @ (k, v) # post)
             (if addId then assignCell emptyObject (ascii ''id'') (Num (int index))
              else emptyObject) = Inr m" and obj: "obj = props m"
    using assms(1) unfolding processRow_loop by blast
  show ?thesis
    using rowLoop_last_write [OF m assms(2,3,4,5)] obj by simp
qed

lemma processRow_no_proto:
  assumes "processRow cm addId camelCase r index = Inr obj"
    and "\<forall>(k, v)\<in>set r. cleanKeyOf cm camelCase k = ascii ''__proto__'' \<longrightarrow>
                         v \<noteq> Null \<and> v \<noteq> Undefined \<and> v \<noteq> Str []"
  shows "getProp obj (ascii ''__proto__'') = None"
proof -
  let ?start = "if addId then assignCell emptyObject (ascii ''id'') (Num (int index))
              else emptyObject"
  obtain m where m: "rowLoop cm camelCase r ?start = Inr m" and obj: "obj = props m"
    using assms(1) unfolding processRow_loop by blast
  have a: "inheritsAccessor ?start"
    by (rule start_object)
  have "ascii ''__proto__'' \<notin> fst ` set (if addId then [(ascii ''id'', Num (int index))] else [])"
    using id_not_proto by auto
  then have b: "ascii ''__proto__'' \<notin> fst ` set (props ?start)"
    by (simp only: start_object simp_thms)
  have "ascii ''__proto__'' \<notin> fst ` set (props m)"
    using m a b assms(2) by (rule rowLoop_accessor)
  then show ?thesis
    using obj by (simp add: getProp_def map_of_eq_None_iff)
qed

lemma processRow_no_empty_key:
  assumes "processRow cm addId camelCase r index = Inr obj"
  shows "[] \<notin> fst ` set obj"
proof -
  let ?start = "if addId then assignCell emptyObject (ascii ''id'') (Num (int index))
              else emptyObject"
  obtain m where m: "rowLoop cm camelCase r ?start = Inr m" and obj: "obj = props m"
    using assms unfolding processRow_loop by blast
  have "[] \<notin> fst ` set (if addId then [(ascii ''id'', Num (int index))] else [])"
    by (auto simp: ascii_def)
  then have "[] \<notin> fst ` set (props ?start)"
    by (simp only: start_object simp_thms)
  then show ?thesis
    using rowLoop_keys [OF m] obj by auto
qed

lemma getProp_hd:
  "obj \<noteq> [] \<Longrightarrow> getProp obj (fst (hd obj)) = Some v \<Longrightarrow> hd obj = (fst (hd obj), v)"
  by (cases obj) (auto simp: getProp_def)

lemma processSheetData_nth:
  assumes "processSheetData cm (Some data) addId camelCase = Inr out" and "i < length out"
  shows "processRow cm addId camelCase (filter hasValue data ! i) i = Inr (out ! i)"
  using assms unfolding processSheetData_rows by auto


section \<open>Rows kept, columns dropped, colliding columns\<close>

text \<open>
  Claim C3. The rows that \<open>processSheetData\<close> transforms are exactly the input rows
  that have a value other than \<open>null\<close>, \<open>undefined\<close> and the empty string, in
  their original order: a result \<open>out\<close> has one row for each of them, row \<open>i\<close> of
  the result being the transformed \<open>i\<close>-th kept row. Keys play no part in the filter.
  A result is returned whenever no cell holds an invalid date.
\<close>

theorem emptiness_filter:
  "(let kept = filter (\<lambda>r. \<not> (\<forall>v\<in>set (map snd r). v = Null \<or> v = Undefined \<or> v = Str [])) data
    in processSheetData cm (Some data) addId camelCase
         = mapRows (processRow cm addId camelCase) kept 0
       \<and> (processSheetData cm (Some data) addId camelCase = Inr out \<longleftrightarrow>
            length out = length kept
            \<and> (\<forall>i<length kept. processRow cm addId camelCase (kept ! i) i = Inr (out ! i))))
   \<and> ((\<forall>r\<in>set data. \<forall>(k, v)\<in>set r. v \<noteq> DateV None) \<longrightarrow>
        (\<exists>rows. processSheetData cm (Some data) addId camelCase = Inr rows))"
proof -
  have "filter (\<lambda>r. \<not> (\<forall>v\<in>set (map snd r). v = Null \<or> v = Undefined \<or> v = Str [])) data
          = filter hasValue data"
    by (rule filter_cong) (simp_all only: hasValue_iff)
  then show ?thesis
    using processSheetData_total [of data cm addId camelCase]
      processSheetData_rows [of cm data addId camelCase out]
    by (simp only: Let_def processSheetData_filter) blast
qed

theorem emptiness_filter_witness:
  "processSheetData asciiMaps
     (Some [[(ascii ''name'', Str ''Ann''), (ascii ''age'', Num 31)],
            [(ascii ''name'', Null), (ascii ''age'', Str [])],
            [(ascii ''name'', Undefined), (ascii ''age'', Num 7)]]) False True
     = Inr [[(ascii ''name'', Str ''Ann''), (ascii ''age'', Num 31)],
            [(ascii ''name'', Null), (ascii ''age'', Num 7)]]
   \<and> processRow asciiMaps False True [(ascii ''name'', Undefined), (ascii ''age'', Num 7)] 1
       = Inr [(ascii ''name'', Null), (ascii ''age'', Num 7)]
   \<and> (\<exists>rows. processSheetData asciiMaps
                (Some [[(ascii ''name'', Str ''Ann''), (ascii ''age'', Num 31)]]) False True
         = Inr rows)"
proof -
  let ?r1 = "[(ascii ''name'', Str ''Ann''), (ascii ''age'', Num 31)]"
  let ?r2 = "[(ascii ''name'', Null), (ascii ''age'', Str [])]"
  let ?r3 = "[(ascii ''name'', Undefined), (ascii ''age'', Num 7)]"
  let ?out = "[[(ascii ''name'', Str ''Ann''), (ascii ''age'', Num 31)],
               [(ascii ''name'', Null), (ascii ''age'', Num 7)]]"
  have p: "processSheetData asciiMaps (Some [?r1, ?r2, ?r3]) False True = Inr ?out"
    by code_simp
  have k: "filter (\<lambda>r. \<not> (\<forall>v\<in>set (map snd r). v = Null \<or> v = Undefined \<or> v = Str []))
             [?r1, ?r2, ?r3] = [?r1, ?r3]"
    by simp
  have a: "\<forall>i<length [?r1, ?r3].
             processRow asciiMaps False True ([?r1, ?r3] ! i) i = Inr (?out ! i)"
    using emptiness_filter [of "[?r1, ?r2, ?r3]" asciiMaps False True ?out] p
    unfolding Let_def k by (elim conjE) simp
  have 1: "processRow asciiMaps False True ?r3 1
             = Inr [(ascii ''name'', Null), (ascii ''age'', Num 7)]"
    using a [rule_format, of "Suc 0"] by simp
  have "\<forall>r\<in>set [?r1]. \<forall>(k, v)\<in>set r. v \<noteq> DateV None"
    by simp
  then have 2: "\<exists>rows. processSheetData asciiMaps (Some [?r1]) False True = Inr rows"
    using emptiness_filter [of "[?r1]" asciiMaps False True "[]"] by (elim conjE) simp
  show ?thesis
    by (intro conjI p 1 2)
qed

text \<open>
  Claim C7. An entry whose column name is empty is skipped by the loop: the row object
  is left as it was, so a row is transformed as if such entries were not there, and
  the empty string is never a key of an output row.
\<close>

theorem empty_key_dropped:
  "(cleanKeyOf cm camelCase key = [] \<longrightarrow>
      rowLoop cm camelCase ((key, v) # rest) cleanRow = rowLoop cm camelCase rest cleanRow)
   \<and> processRow cm addId camelCase r index
       = processRow cm addId camelCase (filter (\<lambda>(k, v). cleanKeyOf cm camelCase k \<noteq> []) r) index
   \<and> (processSheetData cm (Some data) addId camelCase = Inr out \<longrightarrow>
        (\<forall>obj\<in>set out. [] \<notin> fst ` set obj \<and> [] \<notin> set (ownKeys obj)))"
proof -
  have "\<forall>obj\<in>set out. [] \<notin> fst ` set obj \<and> [] \<notin> set (ownKeys obj)"
    if out: "processSheetData cm (Some data) addId camelCase = Inr out"
  proof
    fix obj assume "obj \<in> set out"
    then obtain i where i: "i < length out" "obj = out ! i"
      by (auto simp: in_set_conv_nth)
    then have "processRow cm addId camelCase (filter hasValue data ! i) i = Inr obj"
      using processSheetData_nth [OF out] by simp
    then have "[] \<notin> fst ` set obj"
      by (rule processRow_no_empty_key)
    then show "[] \<notin> fst ` set obj \<and> [] \<notin> set (ownKeys obj)"
      by (simp only: set_ownKeys simp_thms)
  qed
  moreover have "processRow cm addId camelCase r index
       = processRow cm addId camelCase (filter (\<lambda>(k, v). cleanKeyOf cm camelCase k \<noteq> []) r) index"
    unfolding processRow_def by (simp only: rowLoop_skip [symmetric])
  ultimately show ?thesis by simp
qed

theorem empty_key_dropped_witness:
  "cleanKeyOf asciiMaps True (ascii '' _-. '') = []
   \<and> processSheetData asciiMaps
       (Some [[(ascii '' _-. '', Str ''x''), (ascii ''Unit Price'', Num 4)]]) True True
       = Inr [[(ascii ''id'', Num 0), (ascii ''unitPrice'', Num 4)]]
   \<and> [] \<notin> set (ownKeys [(ascii ''id'', Num 0), (ascii ''unitPrice'', Num (4::int))])"
proof -
  let ?data = "[[(ascii '' _-. '', Str ''x''), (ascii ''Unit Price'', Num 4)]]"
  let ?out = "[[(ascii ''id'', Num 0), (ascii ''unitPrice'', Num 4)]]"
  have k: "cleanKeyOf asciiMaps True (ascii '' _-. '') = []" by code_simp
  have p: "processSheetData asciiMaps (Some ?data) True True = Inr ?out" by code_simp
  have "processSheetData asciiMaps (Some ?data) True True = Inr ?out \<longrightarrow>
          (\<forall>obj\<in>set ?out. [] \<notin> fst ` set obj \<and> [] \<notin> set (ownKeys obj))"
    using empty_key_dropped [of asciiMaps True "ascii '' _-. ''" "Str ''x''" "[]" emptyObject
        True "[]" 0 ?data ?out]
    by (elim conjE)
  then have "\<forall>obj\<in>set ?out. [] \<notin> fst ` set obj \<and> [] \<notin> set (ownKeys obj)"
    using p by (rule mp)
  then have "[] \<notin> set (ownKeys [(ascii ''id'', Num 0), (ascii ''unitPrice'', Num (4::int))])"
    by simp
  then show ?thesis
    by (intro conjI k p)
qed

text \<open>
  Claim C8, as amended. When several raw keys of a row give the same column name, and
  that name is not \<open>__proto__\<close>, the output row holds, under that name, the converted
  value of the last of them in the row's iteration order, and it holds that name once.
  The collision raises nothing: every row without an invalid date is transformed,
  whatever its keys. A row whose columns named \<open>__proto__\<close> all hold a value other
  than \<open>null\<close>, \<open>undefined\<close> and the empty string gives an output row with no
  property of that name.
\<close>

theorem last_write_wins:
  assumes "processSheetData cm (Some data) addId camelCase = Inr out"
    and "i < length out"
    and "filter hasValue data ! i = pre @ (k, v) # post"
    and "cleanKeyOf cm camelCase k \<noteq> []"
    and "cleanKeyOf cm camelCase k \<noteq> ascii ''__proto__''"
    and "\<forall>(k', v')\<in>set post. cleanKeyOf cm camelCase k' \<noteq> cleanKeyOf cm camelCase k"
  shows "(\<exists>v'. convertValue v = Inr v' \<and> getProp (out ! i) (cleanKeyOf cm camelCase k) = Some v')
         \<and> length (filter (\<lambda>p. fst p = cleanKeyOf cm camelCase k) (out ! i)) = 1
         \<and> ((\<forall>(k', v')\<in>set r. v' \<noteq> DateV None) \<longrightarrow>
              (\<exists>obj. processRow cm addId camelCase r j = Inr obj))
         \<and> ((\<forall>(k', v')\<in>set (filter hasValue data ! i).
                cleanKeyOf cm camelCase k' = ascii ''__proto__'' \<longrightarrow>
                  v' \<noteq> Null \<and> v' \<noteq> Undefined \<and> v' \<noteq> Str []) \<longrightarrow>
              getProp (out ! i) (ascii ''__proto__'') = None)"
proof -
  have p: "processRow cm addId camelCase (pre @ (k, v) # post) i = Inr (out ! i)"
    using processSheetData_nth [OF assms(1,2)] by (simp only: assms(3))
  have d: "distinct (map fst (out ! i))"
    using p by (rule processRow_distinct)
  have g: "\<exists>v'. convertValue v = Inr v' \<and> getProp (out ! i) (cleanKeyOf cm camelCase k) = Some v'"
    using processRow_last_write [OF p refl assms(4,5,6)] .
  then have "cleanKeyOf cm camelCase k \<in> fst ` set (out ! i)"
    by (auto simp: getProp_def dest: map_of_SomeD intro: rev_image_eqI)
  then have c: "length (filter (\<lambda>p. fst p = cleanKeyOf cm camelCase k) (out ! i)) = 1"
    using count_key_distinct [OF d] by blast
  have t: "(\<forall>(k', v')\<in>set r. v' \<noteq> DateV None) \<longrightarrow>
              (\<exists>obj. processRow cm addId camelCase r j = Inr obj)"
    using processRow_total [of r cm addId camelCase j] by blast
  have n: "(\<forall>(k', v')\<in>set (filter hasValue data ! i).
                cleanKeyOf cm camelCase k' = ascii ''__proto__'' \<longrightarrow>
                  v' \<noteq> Null \<and> v' \<noteq> Undefined \<and> v' \<noteq> Str []) \<longrightarrow>
              getProp (out ! i) (ascii ''__proto__'') = None"
    using processRow_no_proto [OF processSheetData_nth [OF assms(1,2)]] by blast
  show ?thesis
    by (intro conjI g c t n)
qed

theorem last_write_wins_witness:
  "processSheetData asciiMaps
     (Some [[(ascii ''Name '', Str ''Ann''), (ascii ''__proto__'', Str ''x''),
             (ascii '' Name'', Str ''Bea'')]]) False False
     = Inr [[(ascii ''Name'', Str ''Bea'')]]
   \<and> cleanKeyOf asciiMaps False (ascii ''Name '') = cleanKeyOf asciiMaps False (ascii '' Name'')
   \<and> (\<exists>v'. convertValue (Str ''Bea'') = Inr v'
          \<and> getProp ([[(ascii ''Name'', Str ''Bea'')]] ! 0)
               (cleanKeyOf asciiMaps False (ascii '' Name'')) = Some v')
   \<and> (\<exists>obj. processRow asciiMaps False False
               [(ascii ''Name '', Str ''Ann''), (ascii ''__proto__'', Str ''x''),
                (ascii '' Name'', Str ''Bea'')] 0 = Inr obj)
   \<and> getProp ([[(ascii ''Name'', Str ''Bea'')]] ! 0) (ascii ''__proto__'') = None"
proof -
  let ?r = "[(ascii ''Name '', Str ''Ann''), (ascii ''__proto__'', Str ''x''),
             (ascii '' Name'', Str ''Bea'')]"
  let ?out = "[[(ascii ''Name'', Str ''Bea'')]]"
  have p: "processSheetData asciiMaps (Some [?r]) False False = Inr ?out"
    by code_simp
  have i: "0 < length ?out"
    by simp
  have f: "filter hasValue [?r] ! 0
             = [(ascii ''Name '', Str ''Ann''), (ascii ''__proto__'', Str ''x'')]
                 @ (ascii '' Name'', Str ''Bea'') # []"
    by code_simp
  have c1: "cleanKeyOf asciiMaps False (ascii '' Name'') \<noteq> []"
    by code_simp
  have c2: "cleanKeyOf asciiMaps False (ascii '' Name'') \<noteq> ascii ''__proto__''"
    by code_simp
  have q: "\<forall>(k', v')\<in>set []. cleanKeyOf asciiMaps False k'
             \<noteq> cleanKeyOf asciiMaps False (ascii '' Name'')"
    by simp
  have e: "cleanKeyOf asciiMaps False (ascii ''Name '')
             = cleanKeyOf asciiMaps False (ascii '' Name'')"
    by code_simp
  have d: "\<forall>(k', v')\<in>set ?r. v' \<noteq> DateV None"
    by simp
  have n: "\<forall>(k', v')\<in>set (filter hasValue [?r] ! 0).
             cleanKeyOf asciiMaps False k' = ascii ''__proto__'' \<longrightarrow>
               v' \<noteq> Null \<and> v' \<noteq> Undefined \<and> v' \<noteq> Str []"
    by code_simp
  note w = last_write_wins [OF p i f c1 c2 q, of ?r 0]
  have 1: "\<exists>v'. convertValue (Str ''Bea'') = Inr v'
          \<and> getProp (?out ! 0) (cleanKeyOf asciiMaps False (ascii '' Name'')) = Some v'"
    using w by (elim conjE)
  have 2: "\<exists>obj. processRow asciiMaps False False ?r 0 = Inr obj"
    using w [THEN conjunct2, THEN conjunct2, THEN conjunct1] d by (rule mp)
  have 3: "getProp (?out ! 0) (ascii ''__proto__'') = None"
    using w [THEN conjunct2, THEN conjunct2, THEN conjunct2] n by (rule mp)
  show ?thesis
    by (intro conjI p e 1 2 3)
qed

theorem last_write_wins_counterexample:
  "cleanKeyOf asciiMaps False (ascii '' __proto__'') = ascii ''__proto__''
   \<and> cleanKeyOf asciiMaps False (ascii ''__proto__ '') = ascii ''__proto__''
   \<and> processSheetData asciiMaps
       (Some [[(ascii '' __proto__'', Str ''a''), (ascii ''__proto__ '', Str ''b'')]]) True False
       = Inr [[(ascii ''id'', Num 0)]]
   \<and> getProp [(ascii ''id'', Num 0)] (ascii ''__proto__'') = None"
  by code_simp

text \<open>
  Claim C10. With \<open>addId\<close> true, when a raw key of a kept row gives the column name
  \<open>id\<close>, the \<open>id\<close> of the output row is the converted value of that column
  (of the last such column), not the row's index: the value replaces the index in the
  first property of the row, and the row has one \<open>id\<close> key.
\<close>

theorem id_column_overrides:
  assumes "processSheetData cm (Some data) True camelCase = Inr out"
    and "i < length out"
    and "filter hasValue data ! i = pre @ (k, v) # post"
    and "cleanKeyOf cm camelCase k = ascii ''id''"
    and "\<forall>(k', v')\<in>set post. cleanKeyOf cm camelCase k' \<noteq> ascii ''id''"
  shows "\<exists>v'. convertValue v = Inr v' \<and> getProp (out ! i) (ascii ''id'') = Some v'
           \<and> out ! i \<noteq> [] \<and> hd (out ! i) = (ascii ''id'', v')
           \<and> length (filter (\<lambda>p. fst p = ascii ''id'') (out ! i)) = 1"
proof -
  have p: "processRow cm True camelCase (pre @ (k, v) # post) i = Inr (out ! i)"
    using processSheetData_nth [OF assms(1,2)] by (simp only: assms(3))
  have f: "out ! i \<noteq> []" "fst (hd (out ! i)) = ascii ''id''" "distinct (map fst (out ! i))"
    using processRow_id_first [OF p] by simp_all
  have ne: "ascii ''id'' \<noteq> []"
    by (simp add: ascii_def)
  obtain v' where v': "convertValue v = Inr v'" "getProp (out ! i) (ascii ''id'') = Some v'"
    using processRow_last_write [OF p assms(4) ne id_not_proto assms(5)] by auto
  have "hd (out ! i) = (ascii ''id'', v')"
    using getProp_hd [of "out ! i" v'] f v' by simp
  moreover have "ascii ''id'' \<in> fst ` set (out ! i)"
    using f(1,2) by (metis hd_in_set image_eqI)
  then have "length (filter (\<lambda>p. fst p = ascii ''id'') (out ! i)) = 1"
    using count_key_distinct [OF f(3)] by blast
  ultimately show ?thesis
    using v' f(1) by blast
qed

theorem id_column_overrides_witness:
  "processSheetData asciiMaps (Some [[(ascii ''ID'', Str ''A-17''), (ascii ''qty'', Num 2)]])
       True True
     = Inr [[(ascii ''id'', Str ''A-17''), (ascii ''qty'', Num 2)]]
   \<and> cleanKeyOf asciiMaps True (ascii ''ID'') = ascii ''id''
   \<and> (\<exists>v'. convertValue (Str ''A-17'') = Inr v'
         \<and> getProp ([[(ascii ''id'', Str ''A-17''), (ascii ''qty'', Num 2)]] ! 0) (ascii ''id'')
             = Some v'
         \<and> [[(ascii ''id'', Str ''A-17''), (ascii ''qty'', Num 2)]] ! 0 \<noteq> []
         \<and> hd ([[(ascii ''id'', Str ''A-17''), (ascii ''qty'', Num 2)]] ! 0) = (ascii ''id'', v')
         \<and> length (filter (\<lambda>p. fst p = ascii ''id'')
                     ([[(ascii ''id'', Str ''A-17''), (ascii ''qty'', Num 2)]] ! 0)) = 1)"
proof -
  let ?data = "[[(ascii ''ID'', Str ''A-17''), (ascii ''qty'', Num 2)]]"
  let ?out = "[[(ascii ''id'', Str ''A-17''), (ascii ''qty'', Num 2)]]"
  have p: "processSheetData asciiMaps (Some ?data) True True = Inr ?out"
    by code_simp
  have i: "0 < length ?out"
    by simp
  have f: "filter hasValue ?data ! 0 = [] @ (ascii ''ID'', Str ''A-17'') # [(ascii ''qty'', Num 2)]"
    by code_simp
  have c: "cleanKeyOf asciiMaps True (ascii ''ID'') = ascii ''id''"
    by code_simp
  have q: "\<forall>(k', v')\<in>set [(ascii ''qty'', Num 2)]. cleanKeyOf asciiMaps True k' \<noteq> ascii ''id''"
    by code_simp
  note w = id_column_overrides [OF p i f c q]
  show ?thesis
    by (intro conjI p c w)
qed


section \<open>Workbooks\<close>

lemma getProp_assignSheet:
  "getProp (assignSheet result n rows) x
     = (if x = n \<and> n \<noteq> ''__proto__'' then Some rows else getProp result x)"
  by (simp add: assignSheet_def getProp_setProp)

lemma convertAllSheets_result:
  "convertAllSheets cm wb addId camelCase names result = Inr m \<Longrightarrow>
     (\<forall>name\<in>set names. name \<noteq> ''__proto__'' \<longrightarrow>
        (\<exists>rows. processSheetData cm (Some (sheetRows wb name)) addId camelCase = Inr rows
                \<and> getProp m name = Some rows))
     \<and> (\<forall>name. name \<notin> set names \<or> name = ''__proto__'' \<longrightarrow>
           getProp m name = getProp result name)"
proof (induction names arbitrary: result)
  case Nil
  then show ?case by simp
next
  case (Cons n rest)
  obtain rows where rows: "processSheetData cm (Some (sheetRows wb n)) addId camelCase = Inr rows"
    and r: "convertAllSheets cm wb addId camelCase rest (assignSheet result n rows) = Inr m"
    using Cons.prems by (auto split: sum.splits)
  note ih = Cons.IH [OF r]
  have "getProp m n = Some rows" if "n \<notin> set rest" "n \<noteq> ''__proto__''"
    using ih that by (simp add: getProp_assignSheet)
  then have "n \<noteq> ''__proto__'' \<longrightarrow>
       (\<exists>rows. processSheetData cm (Some (sheetRows wb n)) addId camelCase = Inr rows
               \<and> getProp m n = Some rows)"
    using ih rows by (cases "n \<in> set rest") auto
  then show ?case
    using ih by (auto simp: getProp_assignSheet)
qed

lemma mapRows_exception:
  "mapRows f xs n = Inl e \<Longrightarrow> \<exists>i<length xs. f (xs ! i) (n + i) = Inl e"
proof (induction xs arbitrary: n)
  case Nil
  then show ?case by simp
next
  case (Cons x xs)
  show ?case
  proof (cases "f x n")
    case (Inl e')
    then have "f ((x # xs) ! 0) (n + 0) = Inl e" using Cons.prems by simp
    then show ?thesis by blast
  next
    case (Inr y)
    then have "mapRows f xs (Suc n) = Inl e"
      using Cons.prems by (auto split: sum.splits)
    then obtain i where "i < length xs" "f (xs ! i) (Suc n + i) = Inl e"
      using Cons.IH by blast
    then have "Suc i < length (x # xs) \<and> f ((x # xs) ! Suc i) (n + Suc i) = Inl e"
      by simp
    then show ?thesis by blast
  qed
qed

lemma rowLoop_exception:
  "rowLoop cm camelCase r cleanRow = Inl e \<Longrightarrow> e = RangeError ''Invalid time value''"
proof (induction r arbitrary: cleanRow)
  case Nil
  then show ?case by simp
next
  case (Cons p r)
  obtain k v where p: "p = (k, v)" by (cases p)
  show ?case
    using Cons p
    by (auto simp: Let_def convertValue_def toISOString_def
          split: if_splits sum.splits cell.splits option.splits)
qed

lemma processSheetData_exception:
  "processSheetData cm data addId camelCase = Inl e \<Longrightarrow> e = RangeError ''Invalid time value''"
proof (cases data)
  case None
  assume "processSheetData cm data addId camelCase = Inl e"
  then show ?thesis using None by (simp add: processSheetData_def)
next
  case (Some rows)
  assume "processSheetData cm data addId camelCase = Inl e"
  then have "mapRows (processRow cm addId camelCase) (filter hasValue rows) 0 = Inl e"
    using Some by (cases rows) (simp_all add: processSheetData_def)
  then obtain i where "processRow cm addId camelCase (filter hasValue rows ! i) (0 + i) = Inl e"
    using mapRows_exception by blast
  then obtain e' where
    "rowLoop cm camelCase (filter hasValue rows ! i)
       (if addId then assignCell emptyObject (ascii ''id'') (Num (int (0 + i))) else emptyObject)
     = Inl e'" and "e = e'"
    unfolding processRow_def by (auto split: sum.splits)
  then show ?thesis
    using rowLoop_exception by blast
qed

lemma convertBody_Readable:
  "fs filePath = Readable wb \<Longrightarrow>
   convertBody cm fs filePath opts =
     (if listSheets opts
      then Inr (SheetList (SheetNames wb)
             (''Found '' @ showNat (length (SheetNames wb)) @ '' sheet(s)''))
      else if allSheets opts
      then (case convertAllSheets cm wb (\<not> noId opts) (\<not> noCamelCase opts) (SheetNames wb) [] of
              Inl e \<Rightarrow> Inl e
            | Inr result \<Rightarrow>
                Inr (Converted (SheetMap result) (SheetNames wb) ''Conversion successful''))
      else (case targetSheetOf opts (SheetNames wb) of
              None \<Rightarrow> Inl (Error (sheetNotFound None (SheetNames wb)))
            | Some t \<Rightarrow>
                if t \<notin> set (SheetNames wb)
                then Inl (Error (sheetNotFound (Some t) (SheetNames wb)))
                else (case processSheetData cm (Some (sheetRows wb t)) (\<not> noId opts)
                             (\<not> noCamelCase opts) of
                        Inl e \<Rightarrow> Inl e
                      | Inr result \<Rightarrow>
                          Inr (Converted (OneSheet result) (SheetNames wb)
                                 ''Conversion successful''))))"
  by (simp add: convertBody_def Let_def split: option.splits)

lemma convertBody_SheetMap:
  assumes "fs filePath = Readable wb"
    and "convertBody cm fs filePath opts = Inr (Converted (SheetMap m) names msg)"
  shows "convertAllSheets cm wb (\<not> noId opts) (\<not> noCamelCase opts) (SheetNames wb) [] = Inr m"
proof (cases "listSheets opts")
  note cb = convertBody_Readable [where fs = fs and filePath = filePath, OF assms(1)]
  case True
  then show ?thesis
    using assms(2) by (simp add: cb)
next
  note cb = convertBody_Readable [where fs = fs and filePath = filePath, OF assms(1)]
  case False
  note nl = False
  show ?thesis
  proof (cases "allSheets opts")
    case True
    then show ?thesis
      using assms(2) nl
      by (simp add: cb split: sum.splits)
  next
    case False
    then show ?thesis
      using assms(2) nl
      by (simp add: cb split: sum.splits option.splits if_splits)
  qed
qed


section \<open>Sequential identifiers\<close>

text \<open>
  The identifiers are not always the output positions, and \<open>id\<close> is not always
  the first key. Take a row whose entries are visited in the order \<open>2024\<close>,
  \<open>ID\<close> (an object enumerates its integer-like keys first): the column \<open>ID\<close>
  normalizes to \<open>id\<close> and replaces the index, so the \<open>id\<close> of the only
  output row is the string \<open>A-17\<close>, not \<open>0\<close>; and the key \<open>2024\<close>, an
  array index, is enumerated before \<open>id\<close>.
\<close>

theorem sequential_ids_counterexample:
  "processSheetData asciiMaps (Some [[(ascii ''2024'', Num 5), (ascii ''ID'', Str ''A-17'')]])
       True True
     = Inr [[(ascii ''id'', Str ''A-17''), (ascii ''2024'', Num 5)]]
   \<and> getProp [(ascii ''id'', Str ''A-17''), (ascii ''2024'', Num 5)] (ascii ''id'')
       \<noteq> Some (Num 0)
   \<and> ownKeys [(ascii ''id'', Str ''A-17''), (ascii ''2024'', Num 5)]
       = [ascii ''2024'', ascii ''id'']"
proof -
  have a: "processSheetData asciiMaps
             (Some [[(ascii ''2024'', Num 5), (ascii ''ID'', Str ''A-17'')]]) True True
          = Inr [[(ascii ''id'', Str ''A-17''), (ascii ''2024'', Num 5)]]"
    by code_simp
  have b: "getProp [(ascii ''id'', Str ''A-17''), (ascii ''2024'', Num 5)] (ascii ''id'')
             \<noteq> Some (Num 0)"
    by (simp add: getProp_def)
  have c: "ownKeys [(ascii ''id'', Str ''A-17''), (ascii ''2024'', Num 5)]
             = [ascii ''2024'', ascii ''id'']"
    by code_simp
  show ?thesis
    by (rule conjI [OF a conjI [OF b c]])
qed

text \<open>
  Claim C1, amended. With \<open>addId\<close> true, a result has one row for each kept input
  row, and every output row is created with \<open>id\<close> as its first property. The
  \<open>id\<close> of output row \<open>i\<close> is \<open>i\<close> when no raw key of that row normalizes
  to \<open>id\<close>; so when no raw key of any kept row does, the ids are \<open>0, ..., N - 1\<close>
  in output order. The key \<open>id\<close> is the first key enumerated exactly when no key of
  the output row is an array index. In all-sheets mode the value stored for each sheet
  name other than \<open>__proto__\<close> is the result of \<open>processSheetData\<close> on that
  sheet's rows alone, so each sheet is numbered from \<open>0\<close>; a sheet named
  \<open>__proto__\<close> is processed and gets no entry in the result.
\<close>

theorem sequential_ids:
  "(processSheetData cm (Some data) True camelCase = Inr out \<longrightarrow>
      length out = length (filter hasValue data)
      \<and> (\<forall>i<length out.
            out ! i \<noteq> [] \<and> fst (hd (out ! i)) = ascii ''id''
            \<and> (hd (ownKeys (out ! i)) = ascii ''id''
                 \<longleftrightarrow> \<not> (\<exists>k\<in>fst ` set (out ! i). isArrayIndex k))
            \<and> ((\<forall>(k, v)\<in>set (filter hasValue data ! i).
                   cleanKeyOf cm camelCase k \<noteq> ascii ''id'') \<longrightarrow>
                 getProp (out ! i) (ascii ''id'') = Some (Num (int i))))
      \<and> ((\<forall>r\<in>set (filter hasValue data). \<forall>(k, v)\<in>set r.
             cleanKeyOf cm camelCase k \<noteq> ascii ''id'') \<longrightarrow>
           map (\<lambda>obj. getProp obj (ascii ''id'')) out
             = map (\<lambda>i. Some (Num (int i))) [0..<length out]))
   \<and> (fs filePath = Readable wb
        \<and> convertBody cm fs filePath opts = Inr (Converted (SheetMap m) names msg) \<longrightarrow>
        (\<forall>name\<in>set (SheetNames wb). name \<noteq> ''__proto__'' \<longrightarrow>
           (\<exists>rows. processSheetData cm (Some (sheetRows wb name)) (\<not> noId opts)
                      (\<not> noCamelCase opts) = Inr rows
                   \<and> getProp m name = Some rows))
        \<and> getProp m ''__proto__'' = None)"
proof (intro conjI impI)
  assume out: "processSheetData cm (Some data) True camelCase = Inr out"
  show len: "length out = length (filter hasValue data)"
    using out by (simp add: processSheetData_rows)
  have row: "out ! i \<noteq> [] \<and> fst (hd (out ! i)) = ascii ''id''
            \<and> (hd (ownKeys (out ! i)) = ascii ''id''
                 \<longleftrightarrow> \<not> (\<exists>k\<in>fst ` set (out ! i). isArrayIndex k))
            \<and> ((\<forall>(k, v)\<in>set (filter hasValue data ! i).
                   cleanKeyOf cm camelCase k \<noteq> ascii ''id'') \<longrightarrow>
                 getProp (out ! i) (ascii ''id'') = Some (Num (int i)))"
    if i: "i < length out" for i
  proof -
    have p: "processRow cm True camelCase (filter hasValue data ! i) i = Inr (out ! i)"
      using processSheetData_nth [OF out i] .
    have f: "out ! i \<noteq> []" "fst (hd (out ! i)) = ascii ''id''"
      using processRow_id_first [OF p] by simp_all
    show ?thesis
    proof (intro conjI impI)
      show "out ! i \<noteq> []" by (rule f(1))
      show "fst (hd (out ! i)) = ascii ''id''" by (rule f(2))
      show "hd (ownKeys (out ! i)) = ascii ''id''
              \<longleftrightarrow> \<not> (\<exists>k\<in>fst ` set (out ! i). isArrayIndex k)"
        by (rule ownKeys_first_id [OF f])
      assume "\<forall>(k, v)\<in>set (filter hasValue data ! i). cleanKeyOf cm camelCase k \<noteq> ascii ''id''"
      then show "getProp (out ! i) (ascii ''id'') = Some (Num (int i))"
        by (rule processRow_id_kept [OF p])
    qed
  qed
  then show "\<forall>i<length out.
            out ! i \<noteq> [] \<and> fst (hd (out ! i)) = ascii ''id''
            \<and> (hd (ownKeys (out ! i)) = ascii ''id''
                 \<longleftrightarrow> \<not> (\<exists>k\<in>fst ` set (out ! i). isArrayIndex k))
            \<and> ((\<forall>(k, v)\<in>set (filter hasValue data ! i).
                   cleanKeyOf cm camelCase k \<noteq> ascii ''id'') \<longrightarrow>
                 getProp (out ! i) (ascii ''id'') = Some (Num (int i)))"
    by (intro allI impI)
  assume no_id: "\<forall>r\<in>set (filter hasValue data). \<forall>(k, v)\<in>set r.
                   cleanKeyOf cm camelCase k \<noteq> ascii ''id''"
  have "getProp (out ! i) (ascii ''id'') = Some (Num (int i))" if i: "i < length out" for i
  proof -
    have "filter hasValue data ! i \<in> set (filter hasValue data)"
      using i len by (simp only: nth_mem)
    then have "\<forall>(k, v)\<in>set (filter hasValue data ! i). cleanKeyOf cm camelCase k \<noteq> ascii ''id''"
      by (rule bspec [OF no_id])
    then show ?thesis
      by (rule processRow_id_kept [OF processSheetData_nth [OF out i]])
  qed
  then show "map (\<lambda>obj. getProp obj (ascii ''id'')) out
               = map (\<lambda>i. Some (Num (int i))) [0..<length out]"
    by (intro nth_equalityI) simp_all
next
  assume a: "fs filePath = Readable wb
        \<and> convertBody cm fs filePath opts = Inr (Converted (SheetMap m) names msg)"
  then have c: "convertAllSheets cm wb (\<not> noId opts) (\<not> noCamelCase opts) (SheetNames wb) []
                  = Inr m"
    using convertBody_SheetMap [of fs filePath wb cm opts m names msg] by (simp only:)
  show "\<forall>name\<in>set (SheetNames wb). name \<noteq> ''__proto__'' \<longrightarrow>
           (\<exists>rows. processSheetData cm (Some (sheetRows wb name)) (\<not> noId opts)
                      (\<not> noCamelCase opts) = Inr rows
                   \<and> getProp m name = Some rows)"
    using convertAllSheets_result [OF c] by (elim conjE)
  have "getProp m ''__proto__'' = getProp [] ''__proto__''"
    using convertAllSheets_result [OF c] by (elim conjE) simp
  then show "getProp m ''__proto__'' = None"
    by (simp add: getProp_def)
qed

theorem sequential_ids_witness:
  "processSheetData asciiMaps
     (Some [[(ascii ''n'', Str ''a'')], [(ascii ''n'', Null)], [(ascii ''n'', Str ''b'')]])
     True True
     = Inr [[(ascii ''id'', Num 0), (ascii ''n'', Str ''a'')],
            [(ascii ''id'', Num 1), (ascii ''n'', Str ''b'')]]
   \<and> map (\<lambda>obj. getProp obj (ascii ''id''))
         [[(ascii ''id'', Num 0), (ascii ''n'', Str ''a'')],
          [(ascii ''id'', Num 1), (ascii ''n'', Str ''b'')]]
       = [Some (Num 0), Some (Num 1)]
   \<and> (\<exists>rows. processSheetData asciiMaps (Some [[(ascii ''n'', Str ''B'')]]) True True = Inr rows
         \<and> getProp [(''A'', [[(ascii ''id'', Num 0), (ascii ''n'', Str ''A'')]]),
                     (''B'', [[(ascii ''id'', Num 0), (ascii ''n'', Str ''B'')]])] ''B''
             = Some rows)
   \<and> getProp [(''A'', [[(ascii ''id'', Num 0), (ascii ''n'', Str ''A'')]]),
               (''B'', [[(ascii ''id'', Num 0), (ascii ''n'', Str ''B'')]])] ''__proto__''
       = None"
proof -
  let ?data = "[[(ascii ''n'', Str ''a'')], [(ascii ''n'', Null)], [(ascii ''n'', Str ''b'')]]"
  let ?out = "[[(ascii ''id'', Num 0), (ascii ''n'', Str ''a'')],
               [(ascii ''id'', Num 1), (ascii ''n'', Str ''b'')]]"
  let ?wb = "\<lparr>SheetNames = [''A'', ''__proto__'', ''B''],
              sheetRows = (\<lambda>n. [[(ascii ''n'', Str n)]])\<rparr>"
  let ?opts = "\<lparr>sheet = None, allSheets = True, listSheets = False, noId = False,
                noCamelCase = False\<rparr>"
  let ?m = "[(''A'', [[(ascii ''id'', Num 0), (ascii ''n'', Str ''A'')]]),
             (''B'', [[(ascii ''id'', Num 0), (ascii ''n'', Str ''B'')]])]"
  have p: "processSheetData asciiMaps (Some ?data) True True = Inr ?out"
    by code_simp
  have f: "filter hasValue ?data = [[(ascii ''n'', Str ''a'')], [(ascii ''n'', Str ''b'')]]"
    by code_simp
  have n: "cleanKeyOf asciiMaps True (ascii ''n'') \<noteq> ascii ''id''"
    by code_simp
  have q: "\<forall>r\<in>set (filter hasValue ?data). \<forall>(k, v)\<in>set r.
             cleanKeyOf asciiMaps True k \<noteq> ascii ''id''"
    by (simp add: f n)
  have "convertBody asciiMaps (\<lambda>p. Readable ?wb) ''book.xlsx'' ?opts
               = Inr (Converted (SheetMap ?m) [''A'', ''__proto__'', ''B'']
                        ''Conversion successful'')"
    by code_simp
  then have c: "(\<lambda>p. Readable ?wb) ''book.xlsx'' = Readable ?wb
           \<and> convertBody asciiMaps (\<lambda>p. Readable ?wb) ''book.xlsx'' ?opts
               = Inr (Converted (SheetMap ?m) [''A'', ''__proto__'', ''B'']
                        ''Conversion successful'')"
    by simp
  note t = sequential_ids [of asciiMaps ?data True ?out "\<lambda>p. Readable ?wb" "''book.xlsx''" ?wb
      ?opts ?m "[''A'', ''__proto__'', ''B'']" "''Conversion successful''"]
  have "map (\<lambda>obj. getProp obj (ascii ''id'')) ?out
          = map (\<lambda>i. Some (Num (int i))) [0..<length ?out]"
    using t p q by (simp only:)
  moreover have "[0..<length ?out] = [0, Suc 0]"
    by (simp add: upt_conv_Cons)
  ultimately have 1: "map (\<lambda>obj. getProp obj (ascii ''id'')) ?out = [Some (Num 0), Some (Num 1)]"
    by simp
  have s: "(\<forall>name\<in>set (SheetNames ?wb). name \<noteq> ''__proto__'' \<longrightarrow>
           (\<exists>rows. processSheetData asciiMaps (Some (sheetRows ?wb name)) (\<not> noId ?opts)
                      (\<not> noCamelCase ?opts) = Inr rows
                   \<and> getProp ?m name = Some rows))
        \<and> getProp ?m ''__proto__'' = None"
    using t [THEN conjunct2] c by (rule mp)
  have 2: "\<exists>rows. processSheetData asciiMaps (Some [[(ascii ''n'', Str ''B'')]]) True True
                     = Inr rows \<and> getProp ?m ''B'' = Some rows"
    using s [THEN conjunct1] by simp
  show ?thesis
    by (intro conjI p 1 2 s [THEN conjunct2])
qed


section \<open>Sheet selection\<close>

text \<open>
  A workbook without sheets does not always fail: in all-sheets mode it is converted
  with success, to an empty object.
\<close>

theorem empty_workbook_counterexample:
  "convertExcelToJson asciiMaps (\<lambda>p. Readable \<lparr>SheetNames = [], sheetRows = (\<lambda>n. [])\<rparr>) ''book.xlsx''
     \<lparr>sheet = None, allSheets = True, listSheets = False, noId = False, noCamelCase = False\<rparr>
     = Converted (SheetMap []) [] ''Conversion successful''"
  by code_simp

text \<open>
  Claim C2, amended. For a workbook whose list of sheet names is empty, when the sheets
  are not being listed: in all-sheets mode the conversion succeeds with an empty object;
  otherwise it fails, with the sheet-not-found message that names the requested sheet
  (\<open>undefined\<close> when none was requested) and an empty list of available sheets.
\<close>

theorem empty_workbook:
  assumes "fs filePath = Readable wb" and "SheetNames wb = []" and "\<not> listSheets opts"
  shows "convertExcelToJson cm fs filePath opts =
     (if allSheets opts then Converted (SheetMap []) [] ''Conversion successful''
      else Failure (''Sheet \"''
             @ (case sheet opts of None \<Rightarrow> ''undefined''
                | Some s \<Rightarrow> if s = [] then ''undefined'' else s)
             @ ''\" not found. Available sheets: ''))"
  using assms(2,3)
  by (simp add: convertExcelToJson_def convertBody_Readable [where fs = fs, OF assms(1)]
        targetSheetOf_def sheetNotFound_def templateText_def split: option.splits)

theorem empty_workbook_witness:
  "convertExcelToJson asciiMaps (\<lambda>p. Readable \<lparr>SheetNames = [], sheetRows = (\<lambda>n. [])\<rparr>) ''book.xlsx''
     \<lparr>sheet = Some ''Q1'', allSheets = False, listSheets = False, noId = False,
      noCamelCase = False\<rparr>
     = Failure ''Sheet \"Q1\" not found. Available sheets: ''"
  using empty_workbook [where cm = asciiMaps, of "\<lambda>p. Readable \<lparr>SheetNames = [], sheetRows = (\<lambda>n. [])\<rparr>" "''book.xlsx''"
      "\<lparr>SheetNames = [], sheetRows = (\<lambda>n. [])\<rparr>"
      "\<lparr>sheet = Some ''Q1'', allSheets = False, listSheets = False, noId = False,
        noCamelCase = False\<rparr>"]
  by simp

text \<open>
  The sheet-not-found failure and a requested sheet that is missing do not always go
  together. With no sheet requested, an empty list of sheet names fails with the
  sheet-not-found message; and a requested sheet that is the empty string, which is in
  no list, selects the first sheet.
\<close>

theorem sheet_selection_counterexample:
  "convertExcelToJson asciiMaps (\<lambda>p. Readable \<lparr>SheetNames = [], sheetRows = (\<lambda>n. [])\<rparr>) ''book.xlsx''
     \<lparr>sheet = None, allSheets = False, listSheets = False, noId = False, noCamelCase = False\<rparr>
     = Failure ''Sheet \"undefined\" not found. Available sheets: ''
   \<and> convertExcelToJson asciiMaps (\<lambda>p. Readable \<lparr>SheetNames = [''Sales''], sheetRows = (\<lambda>n. [])\<rparr>)
       ''book.xlsx''
       \<lparr>sheet = Some [], allSheets = False, listSheets = False, noId = False, noCamelCase = False\<rparr>
     = Converted (OneSheet []) [''Sales''] ''Conversion successful''"
  by code_simp

text \<open>
  Claim C5, amended. In single-sheet mode over a list of sheet names that is not empty,
  the conversion throws an \<open>Error\<close> exactly when \<open>options.sheet\<close> is a string
  that is not empty and not in the list; the failure message then holds the requested
  name and the whole list, joined by commas. Otherwise the target is the requested sheet,
  or the first sheet when \<open>options.sheet\<close> is absent or empty; it is in the list, and
  the result is the array that \<open>processSheetData\<close> gives for that sheet alone, not
  wrapped in an object (or the failure of that call).
\<close>

theorem sheet_selection:
  assumes "fs filePath = Readable wb" and "\<not> listSheets opts" and "\<not> allSheets opts"
    and "SheetNames wb \<noteq> []"
  shows "((\<exists>m. convertBody cm fs filePath opts = Inl (Error m))
            \<longleftrightarrow> (\<exists>s. sheet opts = Some s \<and> s \<noteq> [] \<and> s \<notin> set (SheetNames wb)))
    \<and> (\<forall>s. sheet opts = Some s \<and> s \<noteq> [] \<and> s \<notin> set (SheetNames wb) \<longrightarrow>
          convertExcelToJson cm fs filePath opts
            = Failure (''Sheet \"'' @ s @ ''\" not found. Available sheets: ''
                        @ joinWith '', '' (SheetNames wb)))
    \<and> (\<not> (\<exists>s. sheet opts = Some s \<and> s \<noteq> [] \<and> s \<notin> set (SheetNames wb)) \<longrightarrow>
         (let target = (case sheet opts of None \<Rightarrow> hd (SheetNames wb)
                        | Some s \<Rightarrow> if s = [] then hd (SheetNames wb) else s)
          in target \<in> set (SheetNames wb)
             \<and> convertExcelToJson cm fs filePath opts
                 = (case processSheetData cm (Some (sheetRows wb target)) (\<not> noId opts)
                          (\<not> noCamelCase opts) of
                      Inl e \<Rightarrow> Failure (message e)
                    | Inr rows \<Rightarrow>
                        Converted (OneSheet rows) (SheetNames wb) ''Conversion successful'')))"
proof -
  note cb = convertBody_Readable [where fs = fs and filePath = filePath and opts = opts, OF assms(1)]
  let ?names = "SheetNames wb"
  let ?P = "processSheetData cm (Some (sheetRows wb (hd ?names))) (\<not> noId opts) (\<not> noCamelCase opts)"
  have hd: "hd ?names \<in> set ?names" using assms(4) by simp
  show ?thesis
  proof (cases "\<exists>s. sheet opts = Some s \<and> s \<noteq> []")
    case True
    then obtain s where s: "sheet opts = Some s" "s \<noteq> []" by blast
    then have t: "targetSheetOf opts ?names = Some s"
      by (simp add: targetSheetOf_def)
    show ?thesis
    proof (cases "s \<in> set ?names")
      case True
      have "convertBody cm fs filePath opts \<noteq> Inl (Error m)" for m
        using processSheetData_exception [of cm "Some (sheetRows wb s)" "\<not> noId opts" "\<not> noCamelCase opts"]
          True assms(2,3)
        by (auto simp: cb t split: sum.splits)
      then show ?thesis
        using True s assms(2,3)
        by (auto simp: convertExcelToJson_def cb t split: sum.splits)
    next
      case False
      then show ?thesis
        using s assms(2,3)
        by (simp add: convertExcelToJson_def cb t sheetNotFound_def templateText_def)
    qed
  next
    case False
    then have t: "targetSheetOf opts ?names = Some (hd ?names)"
      using assms(4) by (auto simp: targetSheetOf_def split: option.splits list.splits)
    have "convertBody cm fs filePath opts \<noteq> Inl (Error m)" for m
      using processSheetData_exception [of cm "Some (sheetRows wb (hd ?names))" "\<not> noId opts"
          "\<not> noCamelCase opts"] hd assms(2,3)
      by (auto simp: cb t split: sum.splits)
    then show ?thesis
      using False hd assms(2,3)
      by (auto simp: convertExcelToJson_def cb t split: sum.splits option.splits)
  qed
qed

theorem sheet_selection_witness:
  "convertExcelToJson asciiMaps
     (\<lambda>p. Readable \<lparr>SheetNames = [''Sales'', ''Summary''], sheetRows = (\<lambda>n. [[(ascii ''n'', Str n)]])\<rparr>)
     ''book.xlsx''
     \<lparr>sheet = Some ''Q1'', allSheets = False, listSheets = False, noId = False,
      noCamelCase = False\<rparr>
     = Failure ''Sheet \"Q1\" not found. Available sheets: Sales, Summary''
   \<and> convertExcelToJson asciiMaps
     (\<lambda>p. Readable \<lparr>SheetNames = [''Sales'', ''Summary''], sheetRows = (\<lambda>n. [[(ascii ''n'', Str n)]])\<rparr>)
     ''book.xlsx''
     \<lparr>sheet = None, allSheets = False, listSheets = False, noId = False, noCamelCase = False\<rparr>
     = Converted (OneSheet [[(ascii ''id'', Num 0), (ascii ''n'', Str ''Sales'')]]) [''Sales'', ''Summary'']
         ''Conversion successful''"
proof -
  let ?wb = "\<lparr>SheetNames = [''Sales'', ''Summary''], sheetRows = (\<lambda>n. [[(ascii ''n'', Str n)]])\<rparr>"
  have p: "processSheetData asciiMaps (Some [[(ascii ''n'', Str ''Sales'')]]) True True
             = Inr [[(ascii ''id'', Num 0), (ascii ''n'', Str ''Sales'')]]"
    by code_simp
  have 1: "convertExcelToJson asciiMaps (\<lambda>p. Readable ?wb) ''book.xlsx''
     \<lparr>sheet = Some ''Q1'', allSheets = False, listSheets = False, noId = False,
      noCamelCase = False\<rparr>
     = Failure ''Sheet \"Q1\" not found. Available sheets: Sales, Summary''"
    using sheet_selection [where cm = asciiMaps, of "\<lambda>p. Readable ?wb" "''book.xlsx''" ?wb
      "\<lparr>sheet = Some ''Q1'', allSheets = False, listSheets = False, noId = False,
        noCamelCase = False\<rparr>"]
    by simp
  have 2: "convertExcelToJson asciiMaps (\<lambda>p. Readable ?wb) ''book.xlsx''
     \<lparr>sheet = None, allSheets = False, listSheets = False, noId = False, noCamelCase = False\<rparr>
     = Converted (OneSheet [[(ascii ''id'', Num 0), (ascii ''n'', Str ''Sales'')]]) [''Sales'', ''Summary'']
         ''Conversion successful''"
    using sheet_selection [where cm = asciiMaps, of "\<lambda>p. Readable ?wb" "''book.xlsx''" ?wb
      "\<lparr>sheet = None, allSheets = False, listSheets = False, noId = False,
        noCamelCase = False\<rparr>"] p
    by (simp add: Let_def)
  show ?thesis
    by (intro conjI 1 2)
qed


section \<open>The calendar\<close>

lemma int_div_bounds:
  fixes x n :: int
  assumes "0 < n"
  shows "n * (x div n) \<le> x \<and> x < n * (x div n) + n"
proof -
  have "x = n * (x div n) + x mod n" by simp
  moreover have "0 \<le> x mod n" "x mod n < n"
    using assms by simp_all
  ultimately show ?thesis by linarith
qed

lemma DayFromYear_below:
  fixes d :: int
  shows "DayFromYear (1970 + (d * 400) div 146097 - 1) \<le> d"
proof -
  define q where "q = (d * 400) div 146097"
  define a where "a = q div 4"
  define b where "b = (q + 68) div 100"
  define c where "c = (q + 368) div 400"
  have q: "146097 * q \<le> d * 400"
    unfolding q_def using int_div_bounds [of 146097 "d * 400"] by simp
  have a: "4 * a \<le> q"
    unfolding a_def using int_div_bounds [of 4 q] by simp
  have b: "q + 68 < 100 * b + 100"
    unfolding b_def using int_div_bounds [of 100 "q + 68"] by simp
  have c: "400 * c \<le> q + 368"
    unfolding c_def using int_div_bounds [of 400 "q + 368"] by simp
  have "DayFromYear (1970 + q - 1) = 365 * q - 365 + a - b + c"
    by (simp add: DayFromYear_def a_def b_def c_def add.commute)
  moreover have "365 * q - 365 + a - b + c \<le> d"
    using q a b c by linarith
  ultimately show ?thesis
    by (simp add: q_def)
qed

lemma DayFromYear_above:
  fixes d :: int
  shows "d < DayFromYear (1970 + (d * 400) div 146097 + 2)"
proof -
  define q where "q = (d * 400) div 146097"
  define a where "a = (q + 3) div 4"
  define b where "b = (q + 71) div 100"
  define c where "c = (q + 371) div 400"
  have q: "d * 400 < 146097 * q + 146097"
    unfolding q_def using int_div_bounds [of 146097 "d * 400"] by simp
  have a: "q + 3 < 4 * a + 4"
    unfolding a_def using int_div_bounds [of 4 "q + 3"] by simp
  have b: "100 * b \<le> q + 71"
    unfolding b_def using int_div_bounds [of 100 "q + 71"] by simp
  have c: "q + 371 < 400 * c + 400"
    unfolding c_def using int_div_bounds [of 400 "q + 371"] by simp
  have "DayFromYear (1970 + q + 2) = 365 * q + 730 + a - b + c"
    by (simp add: DayFromYear_def a_def b_def c_def add.commute)
  moreover have "d < 365 * q + 730 + a - b + c"
    using q a b c by linarith
  ultimately show ?thesis
    by (simp add: q_def)
qed

lemma YearFromTime_bracket:
  "DayFromYear (YearFromTime t) \<le> Day t \<and> Day t < DayFromYear (YearFromTime t + 1)"
proof -
  define y where "y = 1970 + (Day t * 400) div 146097"
  have lo: "DayFromYear (y - 1) \<le> Day t"
    using DayFromYear_below [of "Day t"] by (simp add: y_def)
  have hi: "Day t < DayFromYear (y + 2)"
    using DayFromYear_above [of "Day t"] by (simp add: y_def)
  have Y: "YearFromTime t = (if Day t < DayFromYear y then y - 1
         else if DayFromYear (y + 1) \<le> Day t then y + 1 else y)"
    by (simp add: YearFromTime_def Let_def y_def)
  show ?thesis
  proof (cases "Day t < DayFromYear y")
    case True
    then show ?thesis using lo Y by simp
  next
    case False
    then show ?thesis
      using hi Y by (cases "DayFromYear (y + 1) \<le> Day t") (simp_all add: add.commute)
  qed
qed

lemma div_step:
  fixes x n :: int
  assumes "0 < n"
  shows "(x + 1) div n = (if (x + 1) mod n = 0 then x div n + 1 else x div n)"
proof -
  have x: "x = n * (x div n) + x mod n" by simp
  have r: "0 \<le> x mod n" "x mod n < n" using assms by simp_all
  show ?thesis
  proof (cases "x mod n + 1 < n")
    case True
    have e: "x + 1 = n * (x div n) + (x mod n + 1)" by simp
    have "(x + 1) div n = x div n"
      using int_div_pos_eq [OF e] r True by simp
    moreover have "(x + 1) mod n = x mod n + 1"
      using int_mod_pos_eq [OF e] r True by simp
    ultimately show ?thesis using r by simp
  next
    case False
    then have m: "x mod n = n - 1" using r by simp
    have e: "x + 1 = n * (x div n + 1) + 0"
      using x m by (simp add: algebra_simps)
    have "(x + 1) div n = x div n + 1"
      using int_div_pos_eq [OF e] assms by simp
    moreover have "(x + 1) mod n = 0"
      using int_mod_pos_eq [OF e] assms by simp
    ultimately show ?thesis by simp
  qed
qed

lemma leap_mods:
  fixes y :: int
  shows "(y - 1968) mod 4 = 0 \<longleftrightarrow> y mod 4 = 0"
    and "(y - 1900) mod 100 = 0 \<longleftrightarrow> y mod 100 = 0"
    and "(y - 1600) mod 400 = 0 \<longleftrightarrow> y mod 400 = 0"
proof -
  have "(y - 1968) mod 4 = (y + 4 * (- 492)) mod 4" by simp
  also have "\<dots> = y mod 4" by (rule mod_mult_self2)
  finally show "(y - 1968) mod 4 = 0 \<longleftrightarrow> y mod 4 = 0" by simp
  have "(y - 1900) mod 100 = (y + 100 * (- 19)) mod 100" by simp
  also have "\<dots> = y mod 100" by (rule mod_mult_self2)
  finally show "(y - 1900) mod 100 = 0 \<longleftrightarrow> y mod 100 = 0" by simp
  have "(y - 1600) mod 400 = (y + 400 * (- 4)) mod 400" by simp
  also have "\<dots> = y mod 400" by (rule mod_mult_self2)
  finally show "(y - 1600) mod 400 = 0 \<longleftrightarrow> y mod 400 = 0" by simp
qed

lemma leap_divides:
  fixes y :: int
  shows "y mod 100 = 0 \<Longrightarrow> y mod 4 = 0" and "y mod 400 = 0 \<Longrightarrow> y mod 100 = 0"
proof -
  show "y mod 100 = 0 \<Longrightarrow> y mod 4 = 0"
    using mod_mod_cancel [of 4 100 y] by simp
  show "y mod 400 = 0 \<Longrightarrow> y mod 100 = 0"
    using mod_mod_cancel [of 100 400 y] by simp
qed

lemma DayFromYear_step: "DayFromYear (y + 1) = DayFromYear y + DaysInYear y"
proof -
  have a: "(y - 1968) div 4 = (if y mod 4 = 0 then (y - 1969) div 4 + 1 else (y - 1969) div 4)"
    using div_step [of 4 "y - 1969"] leap_mods(1) [of y] by simp
  have b: "(y - 1900) div 100
             = (if y mod 100 = 0 then (y - 1901) div 100 + 1 else (y - 1901) div 100)"
    using div_step [of 100 "y - 1901"] leap_mods(2) [of y] by simp
  have c: "(y - 1600) div 400
             = (if y mod 400 = 0 then (y - 1601) div 400 + 1 else (y - 1601) div 400)"
    using div_step [of 400 "y - 1601"] leap_mods(3) [of y] by simp
  have "DayFromYear (y + 1)
          = 365 * (y - 1969) + (y - 1968) div 4 - (y - 1900) div 100 + (y - 1600) div 400"
    by (simp add: DayFromYear_def)
  then show ?thesis
    unfolding a b c using leap_divides [of y]
    by (auto simp: DayFromYear_def DaysInYear_def)
qed

lemma DaysInYear_range: "DaysInYear y = 365 \<or> DaysInYear y = 366"
  by (simp add: DaysInYear_def)

lemma DayFromYear_mono_nat: "DayFromYear y < DayFromYear (y + 1 + int k)"
proof (induction k)
  case 0
  show ?case using DayFromYear_step [of y] DaysInYear_range [of y] by auto
next
  case (Suc k)
  have "DayFromYear (y + 1 + int (Suc k)) = DayFromYear ((y + 1 + int k) + 1)"
    by (simp add: add.commute add.left_commute)
  then show ?case
    using Suc DayFromYear_step [of "y + 1 + int k"] DaysInYear_range [of "y + 1 + int k"]
    by auto
qed

lemma DayFromYear_mono: "y < z \<Longrightarrow> DayFromYear y < DayFromYear z"
  using DayFromYear_mono_nat [of y "nat (z - y - 1)"] by simp

lemma YearFromTime_greatest:
  "TimeFromYear (YearFromTime t) \<le> t \<and> (\<forall>y. TimeFromYear y \<le> t \<longrightarrow> y \<le> YearFromTime t)"
proof -
  note b = YearFromTime_bracket [of t]
  have d: "msPerDay * Day t \<le> t \<and> t < msPerDay * Day t + msPerDay"
    unfolding Day_def using int_div_bounds [of msPerDay t] by (simp add: msPerDay_def)
  have "msPerDay * DayFromYear (YearFromTime t) \<le> msPerDay * Day t"
    using b by (simp add: msPerDay_def)
  then have 1: "TimeFromYear (YearFromTime t) \<le> t"
    using d unfolding TimeFromYear_def by linarith
  have 2: "y \<le> YearFromTime t" if y: "TimeFromYear y \<le> t" for y
  proof (rule ccontr)
    assume "\<not> y \<le> YearFromTime t"
    then have "YearFromTime t + 1 \<le> y" by simp
    then have "DayFromYear (YearFromTime t + 1) \<le> DayFromYear y"
      using DayFromYear_mono [of "YearFromTime t + 1" y] by (cases "YearFromTime t + 1 = y") auto
    then have "Day t + 1 \<le> DayFromYear y" using b by simp
    then have "msPerDay * (Day t + 1) \<le> msPerDay * DayFromYear y"
      by (simp add: msPerDay_def)
    then have "msPerDay * Day t + msPerDay \<le> msPerDay * DayFromYear y"
      by (simp add: algebra_simps)
    then show False
      using d y unfolding TimeFromYear_def by linarith
  qed
  show ?thesis using 1 2 by blast
qed

lemma DayWithinYear_range:
  "0 \<le> DayWithinYear t \<and> DayWithinYear t < DaysInYear (YearFromTime t)"
  using YearFromTime_bracket [of t] DayFromYear_step [of "YearFromTime t"]
  by (simp add: DayWithinYear_def)


section \<open>The conversion of a cell\<close>

lemma InLeapYear_DaysInYear: "DaysInYear (YearFromTime t) = 365 + InLeapYear t"
  using DaysInYear_range [of "YearFromTime t"] by (auto simp: InLeapYear_def)

lemma InLeapYear_range: "InLeapYear t = 0 \<or> InLeapYear t = 1"
  by (simp add: InLeapYear_def)

lemma MonthFromTime_range: "0 \<le> MonthFromTime t \<and> MonthFromTime t \<le> 11"
  by (simp add: MonthFromTime_def Let_def)

lemma DateFromTime_range: "1 \<le> DateFromTime t \<and> DateFromTime t \<le> 31"
proof -
  define d where "d = DayWithinYear t"
  define l where "l = InLeapYear t"
  have d: "0 \<le> d" "d < 365 + l"
    using DayWithinYear_range [of t] by (simp_all add: d_def l_def InLeapYear_DaysInYear)
  have l: "l = 0 \<or> l = 1"
    using InLeapYear_range [of t] by (simp add: l_def)
  have "DateFromTime t =
     (if d < 31 then d + 1 else if d < 59 + l then d - 30 else if d < 90 + l then d - 58 - l
         else if d < 120 + l then d - 89 - l else if d < 151 + l then d - 119 - l
         else if d < 181 + l then d - 150 - l else if d < 212 + l then d - 180 - l
         else if d < 243 + l then d - 211 - l else if d < 273 + l then d - 242 - l
         else if d < 304 + l then d - 272 - l else if d < 334 + l then d - 303 - l
         else d - 333 - l)"
    by (simp add: DateFromTime_def MonthFromTime_def Let_def d_def l_def)
  then show ?thesis
    using d l by auto
qed

lemma Day_of_midnight: "Day (msPerDay * Day t) = Day t"
  by (simp add: Day_def msPerDay_def)

lemma isoDate_cong: "Day s = Day t \<Longrightarrow> isoDate s = isoDate t"
  by (simp add: isoDate_def DateFromTime_def MonthFromTime_def InLeapYear_def DayWithinYear_def
        YearFromTime_def)

lemma length_padDigits: "length (padDigits w n) = w"
  by (induction w arbitrary: n) simp_all

lemma isDigit_digitChar: "isDigit (digitChar n)"
proof -
  have "0 \<le> n mod 10" "n mod 10 < 10" by simp_all
  then have "(48 + n mod 10) mod 256 = 48 + n mod 10"
    by (intro mod_pos_pos_trivial) linarith+
  then show ?thesis
    using \<open>0 \<le> n mod 10\<close> \<open>n mod 10 < 10\<close>
    by (simp add: isDigit_def digitChar_def)
qed

lemma padDigits_digits: "c \<in> set (padDigits w n) \<Longrightarrow> isDigit c"
  by (induction w arbitrary: n) (auto simp: isDigit_digitChar)

lemma T_not_digit: "\<not> isDigit (CHR ''T'')"
  by (simp add: isDigit_def)

lemma isoDate_no_T: "CHR ''T'' \<notin> set (isoDate t)"
  using padDigits_digits [of "CHR ''T''"] T_not_digit
  by (auto simp: isoDate_def isoYear_def)

lemma splitTFirst_iso: "splitTFirst (isoDate t @ ''T'' @ rest) = isoDate t"
proof -
  have "takeWhile (\<lambda>c. c \<noteq> CHR ''T'') (isoDate t @ ''T'' @ rest)
          = isoDate t @ takeWhile (\<lambda>c. c \<noteq> CHR ''T'') (''T'' @ rest)"
    using isoDate_no_T [of t] by (intro takeWhile_append2) auto
  then show ?thesis
    by (simp add: splitTFirst_def)
qed

lemma convertValue_date: "convertValue (DateV (Some t)) = Inr (Str (isoDate t))"
  using splitTFirst_iso [of t "isoTime t @ ''Z''"]
  by (simp add: convertValue_def toISOString_def)

lemma march_15: "isoDate (msPerDay * 19797) = ''2024-03-15''"
  by code_simp

lemma padDigits_nth: "i < w \<Longrightarrow> isDigit (padDigits w n ! i)"
  using padDigits_digits [of "padDigits w n ! i" w n] by (simp add: length_padDigits)

lemma date_shape:
  "length (padDigits 4 y @ ''-'' @ padDigits 2 m @ ''-'' @ padDigits 2 d) = 10
   \<and> (\<forall>i<10. if i = 4 \<or> i = 7
               then (padDigits 4 y @ ''-'' @ padDigits 2 m @ ''-'' @ padDigits 2 d) ! i = CHR ''-''
               else isDigit ((padDigits 4 y @ ''-'' @ padDigits 2 m @ ''-'' @ padDigits 2 d) ! i))"
proof (intro conjI allI impI)
  show "length (padDigits 4 y @ ''-'' @ padDigits 2 m @ ''-'' @ padDigits 2 d) = 10"
    by (simp add: length_padDigits)
  fix i :: nat
  assume "i < 10"
  then consider "i < 4" | "i = 4" | "i = 5" | "i = 6" | "i = 7" | "i = 8" | "i = 9"
    by linarith
  then show "if i = 4 \<or> i = 7
               then (padDigits 4 y @ ''-'' @ padDigits 2 m @ ''-'' @ padDigits 2 d) ! i = CHR ''-''
               else isDigit ((padDigits 4 y @ ''-'' @ padDigits 2 m @ ''-'' @ padDigits 2 d) ! i)"
    by cases (simp_all add: nth_append length_padDigits padDigits_nth nth_Cons')
qed

lemma year_10000: "isoDate 253402300800000 = ''+010000-01-01''"
  by code_simp

text \<open>
  The conversion is not total, and a date is not always rendered as \<open>YYYY-MM-DD\<close>:
  an invalid date makes the conversion throw, and the first instant of the year 10000 is
  rendered with a sign and six digits for the year.
\<close>

theorem cell_conversion_counterexample:
  "convertValue (DateV None) = Inl (RangeError ''Invalid time value'')
   \<and> convertValue (DateV (Some 253402300800000)) = Inr (Str ''+010000-01-01'')"
proof -
  have "convertValue (DateV None) = Inl (RangeError ''Invalid time value'')"
    by (simp add: convertValue_def toISOString_def)
  moreover have "convertValue (DateV (Some 253402300800000)) = Inr (Str ''+010000-01-01'')"
    by (simp only: convertValue_date year_10000)
  ultimately show ?thesis by (rule conjI)
qed

text \<open>
  Claim C6, amended. \<open>null\<close>, \<open>undefined\<close> and the empty string become
  \<open>null\<close>; every other string, every number and every boolean is passed through
  unchanged. A date with a time value whose UTC year lies between 0 and 9999 becomes the
  string \<open>YYYY-MM-DD\<close> of its UTC calendar date, ten characters that are digits
  but for the two hyphens: the year is the greatest one that starts at or before the
  instant, the month lies between 1 and 12 and the day between 1 and 31, and the string
  is that of the midnight before, so the time of day plays no part. Every instant of
  15 March 2024 gives \<open>2024-03-15\<close>. The conversion returns a value for every cell
  other than an invalid date.
\<close>

theorem cell_conversion:
  "convertValue Null = Inr Null \<and> convertValue Undefined = Inr Null
   \<and> convertValue (Str []) = Inr Null
   \<and> (s \<noteq> [] \<longrightarrow> convertValue (Str s) = Inr (Str s))
   \<and> convertValue (Num n) = Inr (Num n) \<and> convertValue (Bool b) = Inr (Bool b)
   \<and> (0 \<le> YearFromTime t \<and> YearFromTime t \<le> 9999 \<longrightarrow>
        (let ymd = padDigits 4 (YearFromTime t) @ ''-'' @ padDigits 2 (MonthFromTime t + 1)
                     @ ''-'' @ padDigits 2 (DateFromTime t)
         in convertValue (DateV (Some t)) = Inr (Str ymd)
            \<and> length ymd = 10
            \<and> (\<forall>i<10. if i = 4 \<or> i = 7 then ymd ! i = CHR ''-'' else isDigit (ymd ! i))))
   \<and> convertValue (DateV (Some t)) = convertValue (DateV (Some (msPerDay * Day t)))
   \<and> TimeFromYear (YearFromTime t) \<le> t \<and> (\<forall>y. TimeFromYear y \<le> t \<longrightarrow> y \<le> YearFromTime t)
   \<and> 1 \<le> MonthFromTime t + 1 \<and> MonthFromTime t + 1 \<le> 12
   \<and> 1 \<le> DateFromTime t \<and> DateFromTime t \<le> 31
   \<and> (Day t = 19797 \<longrightarrow> convertValue (DateV (Some t)) = Inr (Str ''2024-03-15''))
   \<and> (v \<noteq> DateV None \<longrightarrow> (\<exists>v'. convertValue v = Inr v'))"
proof -
  have plain: "convertValue Null = Inr Null" "convertValue Undefined = Inr Null"
    "convertValue (Str []) = Inr Null" "s \<noteq> [] \<longrightarrow> convertValue (Str s) = Inr (Str s)"
    "convertValue (Num n) = Inr (Num n)" "convertValue (Bool b) = Inr (Bool b)"
    by (simp_all add: convertValue_def)
  have date: "0 \<le> YearFromTime t \<and> YearFromTime t \<le> 9999 \<longrightarrow>
        (let ymd = padDigits 4 (YearFromTime t) @ ''-'' @ padDigits 2 (MonthFromTime t + 1)
                     @ ''-'' @ padDigits 2 (DateFromTime t)
         in convertValue (DateV (Some t)) = Inr (Str ymd)
            \<and> length ymd = 10
            \<and> (\<forall>i<10. if i = 4 \<or> i = 7 then ymd ! i = CHR ''-'' else isDigit (ymd ! i)))"
  proof
    assume y: "0 \<le> YearFromTime t \<and> YearFromTime t \<le> 9999"
    let ?ymd = "padDigits 4 (YearFromTime t) @ ''-'' @ padDigits 2 (MonthFromTime t + 1)
                  @ ''-'' @ padDigits 2 (DateFromTime t)"
    have "isoDate t = ?ymd"
      using y by (simp add: isoDate_def isoYear_def)
    then have c: "convertValue (DateV (Some t)) = Inr (Str ?ymd)"
      by (simp only: convertValue_date)
    note sh = date_shape [of "YearFromTime t" "MonthFromTime t + 1" "DateFromTime t"]
    show "let ymd = ?ymd
          in convertValue (DateV (Some t)) = Inr (Str ymd)
             \<and> length ymd = 10
             \<and> (\<forall>i<10. if i = 4 \<or> i = 7 then ymd ! i = CHR ''-'' else isDigit (ymd ! i))"
      unfolding Let_def by (rule conjI [OF c sh])
  qed
  have midnight: "convertValue (DateV (Some t)) = convertValue (DateV (Some (msPerDay * Day t)))"
    unfolding convertValue_date using isoDate_cong [OF Day_of_midnight [of t]] by simp
  have year: "TimeFromYear (YearFromTime t) \<le> t"
    "\<forall>y. TimeFromYear y \<le> t \<longrightarrow> y \<le> YearFromTime t"
    using YearFromTime_greatest [of t] by simp_all
  have range: "1 \<le> MonthFromTime t + 1" "MonthFromTime t + 1 \<le> 12"
    "1 \<le> DateFromTime t" "DateFromTime t \<le> 31"
    using MonthFromTime_range [of t] DateFromTime_range [of t] by simp_all
  have example: "Day t = 19797 \<longrightarrow> convertValue (DateV (Some t)) = Inr (Str ''2024-03-15'')"
  proof
    assume "Day t = 19797"
    then have "Day t = Day (msPerDay * 19797)"
      using Day_of_midnight [of t] by simp
    then have "isoDate t = isoDate (msPerDay * 19797)"
      by (rule isoDate_cong)
    then show "convertValue (DateV (Some t)) = Inr (Str ''2024-03-15'')"
      by (simp only: convertValue_date march_15)
  qed
  have total: "v \<noteq> DateV None \<longrightarrow> (\<exists>v'. convertValue v = Inr v')"
    using convertValue_total [of v] by simp
  show ?thesis
    by (intro conjI plain date midnight year range example total)
qed

theorem cell_conversion_witness:
  "convertValue (DateV (Some 1710512345678)) = Inr (Str ''2024-03-15'')
   \<and> convertValue (Str ''N/A'') = Inr (Str ''N/A'')
   \<and> (\<exists>v'. convertValue (Bool True) = Inr v')"
proof -
  note t = cell_conversion [of "''N/A''" 0 True 1710512345678 "Bool True"]
  have y: "YearFromTime 1710512345678 = 2024" by code_simp
  have m: "MonthFromTime 1710512345678 = 2" by code_simp
  have d: "DateFromTime 1710512345678 = 15" by code_simp
  have s: "padDigits 4 2024 @ ''-'' @ padDigits 2 (2 + 1) @ ''-'' @ padDigits 2 15 = ''2024-03-15''"
    by code_simp
  have "0 \<le> YearFromTime 1710512345678 \<and> YearFromTime 1710512345678 \<le> 9999 \<longrightarrow>
        (let ymd = padDigits 4 (YearFromTime 1710512345678) @ ''-''
                     @ padDigits 2 (MonthFromTime 1710512345678 + 1)
                     @ ''-'' @ padDigits 2 (DateFromTime 1710512345678)
         in convertValue (DateV (Some 1710512345678)) = Inr (Str ymd)
            \<and> length ymd = 10
            \<and> (\<forall>i<10. if i = 4 \<or> i = 7 then ymd ! i = CHR ''-'' else isDigit (ymd ! i)))"
    using t by (elim conjE)
  then have 1: "convertValue (DateV (Some 1710512345678)) = Inr (Str ''2024-03-15'')"
    unfolding y m d s Let_def by simp
  have "''N/A'' \<noteq> [] \<longrightarrow> convertValue (Str ''N/A'') = Inr (Str ''N/A'')"
    using t by (elim conjE)
  then have 2: "convertValue (Str ''N/A'') = Inr (Str ''N/A'')"
    by simp
  have "Bool True \<noteq> DateV None \<longrightarrow> (\<exists>v'. convertValue (Bool True) = Inr v')"
    using t by (elim conjE)
  then have 3: "\<exists>v'. convertValue (Bool True) = Inr v'"
    by simp
  show ?thesis
    by (intro conjI 1 2 3)
qed

end
